theory Spec2Isabelle
  imports Complex_Main
begin

section \<open>Numeric model\<close>

text \<open>
  The program computes with numpy's float64.  The model is the usual exact idealisation:
  a finite float is a real number and finite arithmetic is real arithmetic (no rounding,
  no overflow).  The IEEE special values are kept, because the program can produce them
  from finite inputs: a division by zero yields an infinity or a NaN and the square root
  of a negative number yields a NaN (numpy only issues a RuntimeWarning).  Signed zeros
  are not distinguished.  Statements about the numbers in a result are therefore statements
  up to rounding; statements about which call returns and which exception it raises are
  made in terms of the outcome of the library calls involved.
\<close>

datatype npfloat = Fin real | PInf | NInf | NaN

datatype error = LinAlgError | ValueError | OverflowError | NonFiniteInput

fun is_fin :: "npfloat \<Rightarrow> bool" where
  "is_fin (Fin r) = True"
| "is_fin _ = False"

fun fin_val :: "npfloat \<Rightarrow> real" where
  "fin_val (Fin r) = r"
| "fin_val _ = 0"

fun np_neg :: "npfloat \<Rightarrow> npfloat" where
  "np_neg (Fin a) = Fin (- a)"
| "np_neg PInf = NInf"
| "np_neg NInf = PInf"
| "np_neg NaN = NaN"

fun np_add :: "npfloat \<Rightarrow> npfloat \<Rightarrow> npfloat" where
  "np_add (Fin a) (Fin b) = Fin (a + b)"
| "np_add NaN _ = NaN"
| "np_add _ NaN = NaN"
| "np_add PInf NInf = NaN"
| "np_add NInf PInf = NaN"
| "np_add PInf _ = PInf"
| "np_add _ PInf = PInf"
| "np_add NInf _ = NInf"
| "np_add _ NInf = NInf"

definition np_sub :: "npfloat \<Rightarrow> npfloat \<Rightarrow> npfloat" where
  "np_sub a b = np_add a (np_neg b)"

fun np_mul :: "npfloat \<Rightarrow> npfloat \<Rightarrow> npfloat" where
  "np_mul (Fin a) (Fin b) = Fin (a * b)"
| "np_mul NaN _ = NaN"
| "np_mul _ NaN = NaN"
| "np_mul (Fin a) PInf = (if a = 0 then NaN else if 0 < a then PInf else NInf)"
| "np_mul (Fin a) NInf = (if a = 0 then NaN else if 0 < a then NInf else PInf)"
| "np_mul PInf (Fin b) = (if b = 0 then NaN else if 0 < b then PInf else NInf)"
| "np_mul NInf (Fin b) = (if b = 0 then NaN else if 0 < b then NInf else PInf)"
| "np_mul PInf PInf = PInf"
| "np_mul NInf NInf = PInf"
| "np_mul PInf NInf = NInf"
| "np_mul NInf PInf = NInf"

fun np_div :: "npfloat \<Rightarrow> npfloat \<Rightarrow> npfloat" where
  "np_div (Fin a) (Fin b) =
     (if b \<noteq> 0 then Fin (a / b)
      else if 0 < a then PInf else if a < 0 then NInf else NaN)"
| "np_div NaN _ = NaN"
| "np_div _ NaN = NaN"
| "np_div (Fin a) PInf = Fin 0"
| "np_div (Fin a) NInf = Fin 0"
| "np_div PInf (Fin b) = (if 0 \<le> b then PInf else NInf)"
| "np_div NInf (Fin b) = (if 0 \<le> b then NInf else PInf)"
| "np_div PInf PInf = NaN"
| "np_div PInf NInf = NaN"
| "np_div NInf PInf = NaN"
| "np_div NInf NInf = NaN"

fun np_exp :: "npfloat \<Rightarrow> npfloat" where
  "np_exp (Fin a) = Fin (exp a)"
| "np_exp PInf = PInf"
| "np_exp NInf = Fin 0"
| "np_exp NaN = NaN"

fun np_sqrt :: "npfloat \<Rightarrow> npfloat" where
  "np_sqrt (Fin a) = (if a < 0 then NaN else Fin (sqrt a))"
| "np_sqrt PInf = PInf"
| "np_sqrt NInf = NaN"
| "np_sqrt NaN = NaN"

text \<open>\<open>a <= b\<close> on floats: every comparison with a NaN is false.\<close>

fun np_le :: "npfloat \<Rightarrow> npfloat \<Rightarrow> bool" where
  "np_le NaN _ = False"
| "np_le _ NaN = False"
| "np_le NInf _ = True"
| "np_le _ PInf = True"
| "np_le (Fin a) (Fin b) = (a \<le> b)"
| "np_le (Fin a) NInf = False"
| "np_le PInf _ = False"

definition np_sum :: "npfloat list \<Rightarrow> npfloat" where
  "np_sum xs = foldr np_add xs (Fin 0)"

text \<open>
  \<open>x ** 2\<close> for a Python float \<open>x\<close>.  Unlike numpy's array operations, Python's float power
  raises: \<open>OverflowError\<close> when the square leaves the float64 range, which for a float
  happens exactly when \<open>|x| >= 2\<^sup>5\<^sup>1\<^sup>2\<close>.  A square below half of the smallest positive
  float, \<open>2\<^sup>-\<^sup>1\<^sup>0\<^sup>7\<^sup>4\<close>, is returned as zero.
\<close>

definition py_float_sq :: "real \<Rightarrow> error + real" where
  "py_float_sq x =
     (if 2 ^ 512 \<le> \<bar>x\<bar> then Inl OverflowError
      else if x\<^sup>2 \<le> 1 / 2 ^ 1075 then Inr 0
      else Inr (x\<^sup>2))"

section \<open>Two-dimensional arrays\<close>

text \<open>
  A 2-D ndarray carries its shape, so that the arrays of shape \<open>(n, 0)\<close> and \<open>(0, n)\<close>
  that arise without observations are told apart.
\<close>

record ndarray2 =
  shape0 :: nat
  shape1 :: nat
  cells :: "npfloat list list"

definition mk2 :: "nat \<Rightarrow> nat \<Rightarrow> (nat \<Rightarrow> nat \<Rightarrow> npfloat) \<Rightarrow> ndarray2" where
  "mk2 n m f = \<lparr>shape0 = n, shape1 = m, cells = map (\<lambda>i. map (\<lambda>j. f i j) [0..<m]) [0..<n]\<rparr>"

definition at2 :: "ndarray2 \<Rightarrow> nat \<Rightarrow> nat \<Rightarrow> npfloat" where
  "at2 A i j = cells A ! i ! j"

text \<open>\<open>np.eye(n)\<close>.\<close>

definition np_eye :: "nat \<Rightarrow> ndarray2" where
  "np_eye n = mk2 n n (\<lambda>i j. Fin (if i = j then 1 else 0))"

text \<open>\<open>c * A\<close> for a scalar \<open>c\<close>, and \<open>A + B\<close>, \<open>A - B\<close> for arrays of one shape.\<close>

definition np_scale :: "npfloat \<Rightarrow> ndarray2 \<Rightarrow> ndarray2" where
  "np_scale c A = mk2 (shape0 A) (shape1 A) (\<lambda>i j. np_mul c (at2 A i j))"

definition np_add2 :: "ndarray2 \<Rightarrow> ndarray2 \<Rightarrow> ndarray2" where
  "np_add2 A B = mk2 (shape0 A) (shape1 A) (\<lambda>i j. np_add (at2 A i j) (at2 B i j))"

definition np_sub2 :: "ndarray2 \<Rightarrow> ndarray2 \<Rightarrow> ndarray2" where
  "np_sub2 A B = mk2 (shape0 A) (shape1 A) (\<lambda>i j. np_sub (at2 A i j) (at2 B i j))"

text \<open>\<open>A @ B\<close> for two matrices and \<open>A @ v\<close> for a matrix and a vector; numpy raises
  ValueError when the inner dimensions differ.\<close>

definition matmul :: "ndarray2 \<Rightarrow> ndarray2 \<Rightarrow> error + ndarray2" where
  "matmul A B =
     (if shape1 A \<noteq> shape0 B then Inl ValueError
      else Inr (mk2 (shape0 A) (shape1 B)
             (\<lambda>i j. np_sum (map (\<lambda>k. np_mul (at2 A i k) (at2 B k j)) [0..<shape1 A]))))"

definition matvec :: "ndarray2 \<Rightarrow> npfloat list \<Rightarrow> error + npfloat list" where
  "matvec A v =
     (if shape1 A \<noteq> length v then Inl ValueError
      else Inr (map (\<lambda>i. np_sum (map (\<lambda>k. np_mul (at2 A i k) (v ! k)) [0..<shape1 A]))
                  [0..<shape0 A]))"

text \<open>\<open>np.diag(A)\<close> of a 2-D array: its main diagonal.\<close>

definition np_diag :: "ndarray2 \<Rightarrow> npfloat list" where
  "np_diag A = map (\<lambda>i. at2 A i i) [0..<min (shape0 A) (shape1 A)]"

section \<open>Radial basis function kernel\<close>

text \<open>
  \<open>xx, yy = np.meshgrid(x2, x1)\<close> gives \<open>xx[i][j] = x2[j]\<close> and \<open>yy[i][j] = x1[i]\<close>, both of
  shape \<open>(len x1, len x2)\<close>; the result is \<open>exp(-(xx - yy)**2 / (2 * sigma**2))\<close>
  elementwise.  The only operation that leaves the finite numbers is the division.
\<close>

definition rbf_kernel :: "real list \<Rightarrow> real list \<Rightarrow> real \<Rightarrow> ndarray2" where
  "rbf_kernel x1 x2 sigma =
     mk2 (length x1) (length x2)
       (\<lambda>i j. np_exp (np_div (Fin (- ((x2 ! j - x1 ! i)\<^sup>2))) (Fin (2 * sigma\<^sup>2))))"

text \<open>
  The outcome of a call with a Python float \<open>sigma\<close>.  The body has no \<open>raise\<close>; the array
  operations cannot fail on 1-D float arrays, and the one scalar operation that can is the
  float power \<open>sigma**2\<close>.  \<open>rbf_kernel\<close> reads \<open>sigma\<close> only through its square, so the
  array expression is evaluated at the non-negative number whose square is the float
  \<open>sigma**2\<close>.  (\<open>fitted_gaus\<close> calls the kernel with the default \<open>sigma=1\<close>, an integer,
  whose square is exact.)
\<close>

definition rbf_kernel_call :: "real list \<Rightarrow> real list \<Rightarrow> real \<Rightarrow> error + ndarray2" where
  "rbf_kernel_call x1 x2 sigma =
     (case py_float_sq sigma of
        Inl e \<Rightarrow> Inl e
      | Inr sigma_sq \<Rightarrow> Inr (rbf_kernel x1 x2 (sqrt sigma_sq)))"

section \<open>Matrix inversion\<close>

text \<open>
  \<open>np.linalg.inv\<close> is library code (LAPACK's LU factorisation with partial pivoting).  In
  exact arithmetic every elimination order computes the same inverse, and the routine
  raises \<open>LinAlgError("Singular matrix")\<close> exactly when a column has no non-zero pivot.
  The model is Gauss-Jordan elimination on the matrix augmented with the identity; the
  lemmas \<open>mat_inv_Some\<close> and \<open>mat_inv_None\<close> below show that it meets this
  contract, whatever pivot is chosen.
\<close>

type_synonym rmat = "real list list"

definition unit_row :: "nat \<Rightarrow> nat \<Rightarrow> real list" where
  "unit_row n i = map (\<lambda>j. if j = i then 1 else 0) [0..<n]"

definition augment :: "rmat \<Rightarrow> rmat" where
  "augment A = map (\<lambda>i. A ! i @ unit_row (length A) i) [0..<length A]"

definition find_pivot :: "nat \<Rightarrow> rmat \<Rightarrow> nat option" where
  "find_pivot c rs = List.find (\<lambda>p. rs ! p ! c \<noteq> 0) [c..<length rs]"

definition swap_rows :: "nat \<Rightarrow> nat \<Rightarrow> rmat \<Rightarrow> rmat" where
  "swap_rows c p rs = rs[c := rs ! p, p := rs ! c]"

definition eliminate :: "nat \<Rightarrow> rmat \<Rightarrow> rmat" where
  "eliminate c rs =
     (let pr = map (\<lambda>x. x / (rs ! c ! c)) (rs ! c)
      in map (\<lambda>i. if i = c then pr
                  else map2 (\<lambda>x y. x - (rs ! i ! c) * y) (rs ! i) pr) [0..<length rs])"

fun gj :: "nat \<Rightarrow> nat \<Rightarrow> rmat \<Rightarrow> rmat option" where
  "gj 0 c rs = Some rs"
| "gj (Suc k) c rs =
     (case find_pivot c rs of
        None \<Rightarrow> None
      | Some p \<Rightarrow> gj k (Suc c) (eliminate c (swap_rows c p rs)))"

definition mat_inv :: "rmat \<Rightarrow> rmat option" where
  "mat_inv A = map_option (map (drop (length A))) (gj (length A) 0 (augment A))"

text \<open>
  The call \<open>np.linalg.inv(A)\<close>.  Inputs with an infinity or a NaN are outside the exact
  model; the model answers them with the marker \<open>NonFiniteInput\<close>, and
  \<open>fitted_gaus_never_nonfinite\<close> shows that the posterior never reaches that branch.
\<close>

definition np_linalg_inv :: "ndarray2 \<Rightarrow> error + ndarray2" where
  "np_linalg_inv A =
     (if shape0 A \<noteq> shape1 A then Inl LinAlgError
      else if \<not> list_all (list_all is_fin) (cells A) then Inl NonFiniteInput
      else case mat_inv (map (map fin_val) (cells A)) of
             None \<Rightarrow> Inl LinAlgError
           | Some B \<Rightarrow> Inr \<lparr>shape0 = shape0 A, shape1 = shape1 A, cells = map (map Fin) B\<rparr>)"

section \<open>Fitting a Gaussian process to the data\<close>

text \<open>
  \<open>fitted_gaus(X, prev_x, prev_y, noise)\<close>.  The kernel is always called with its default
  \<open>sigma=1\<close>.  \<open>sigma_ab @ sigma_bb_inv @ prev_y\<close> associates to the left; the inversion
  comes first, so a singular matrix is reported before a length mismatch.
\<close>

definition fitted_gaus ::
  "real list \<Rightarrow> real list \<Rightarrow> real list \<Rightarrow> real \<Rightarrow> error + (npfloat list \<times> ndarray2)" where
  "fitted_gaus X prev_x prev_y noise =
     (let sigma_bb = np_add2 (rbf_kernel prev_x prev_x 1)
                       (np_scale (Fin (noise\<^sup>2)) (np_eye (length prev_x)));
          sigma_aa = rbf_kernel X X 1;
          sigma_ba = rbf_kernel prev_x X 1;
          sigma_ab = rbf_kernel X prev_x 1
      in case np_linalg_inv sigma_bb of
           Inl e \<Rightarrow> Inl e
         | Inr sigma_bb_inv \<Rightarrow>
            (case matmul sigma_ab sigma_bb_inv of
               Inl e \<Rightarrow> Inl e
             | Inr t \<Rightarrow>
                (case matvec t (map Fin prev_y) of
                   Inl e \<Rightarrow> Inl e
                 | Inr mean_a \<Rightarrow>
                    (case matmul t sigma_ba of
                       Inl e \<Rightarrow> Inl e
                     | Inr u \<Rightarrow> Inr (mean_a, np_sub2 sigma_aa u)))))"

text \<open>
  The matrix that line 125 hands to \<open>np.linalg.inv\<close>, as a function of the value of
  \<open>noise**2\<close>.
\<close>

definition sigma_bb :: "real list \<Rightarrow> real \<Rightarrow> ndarray2" where
  "sigma_bb prev_x noise_sq =
     np_add2 (rbf_kernel prev_x prev_x 1) (np_scale (Fin noise_sq) (np_eye (length prev_x)))"

text \<open>
  The outcome of a call with a Python float \<open>noise\<close>.  \<open>noise\<close> occurs in the body once, as
  \<open>noise**2\<close> in line 125, and the kernel call evaluated before it cannot raise; so the float
  power decides first whether the call goes on.  \<open>fitted_gaus\<close> reads \<open>noise\<close> only through
  its square, so the body is evaluated at the non-negative number whose square is the float
  \<open>noise**2\<close>.
\<close>

definition fitted_gaus_call ::
  "real list \<Rightarrow> real list \<Rightarrow> real list \<Rightarrow> real \<Rightarrow> error + (npfloat list \<times> ndarray2)" where
  "fitted_gaus_call X prev_x prev_y noise =
     (case py_float_sq noise of
        Inl e \<Rightarrow> Inl e
      | Inr noise_sq \<Rightarrow> fitted_gaus X prev_x prev_y (sqrt noise_sq))"

section \<open>Acquisition functions\<close>

text \<open>
  \<open>scipy.stats.norm.pdf\<close> and \<open>scipy.stats.norm.cdf\<close>: the standard normal density, and
  its distribution function written as the power series of \<open>1/2 + 1/sqrt(2 pi) *\<close> the
  integral of \<open>exp(-t\<^sup>2/2)\<close> from 0 to \<open>z\<close> (\<open>std_cdf_deriv\<close> below shows that the series
  has the density as its derivative).  At the infinities the two functions take their
  limits, and a NaN stays a NaN.
\<close>

definition std_pdf :: "real \<Rightarrow> real" where
  "std_pdf z = exp (- (z\<^sup>2) / 2) / sqrt (2 * pi)"

definition cdf_term :: "real \<Rightarrow> nat \<Rightarrow> real" where
  "cdf_term z n = (- 1) ^ n * z ^ (2 * n + 1) / (2 ^ n * fact n * real (2 * n + 1))"

definition std_cdf :: "real \<Rightarrow> real" where
  "std_cdf z = 1 / 2 + (\<Sum>n. cdf_term z n) / sqrt (2 * pi)"

definition cdf_coeff :: "nat \<Rightarrow> real" where
  "cdf_coeff n = (- 1) ^ n / (2 ^ n * fact n * real (2 * n + 1))"

fun norm_pdf :: "npfloat \<Rightarrow> npfloat" where
  "norm_pdf (Fin z) = Fin (std_pdf z)"
| "norm_pdf PInf = Fin 0"
| "norm_pdf NInf = Fin 0"
| "norm_pdf NaN = NaN"

fun norm_cdf :: "npfloat \<Rightarrow> npfloat" where
  "norm_cdf (Fin z) = Fin (std_cdf z)"
| "norm_cdf PInf = Fin 1"
| "norm_cdf NInf = Fin 0"
| "norm_cdf NaN = NaN"

text \<open>\<open>np.max\<close> of a 1-D array: a NaN wins, an empty array raises ValueError.\<close>

fun np_maximum :: "npfloat \<Rightarrow> npfloat \<Rightarrow> npfloat" where
  "np_maximum NaN _ = NaN"
| "np_maximum _ NaN = NaN"
| "np_maximum a b = (if np_le a b then b else a)"

fun np_max :: "npfloat list \<Rightarrow> error + npfloat" where
  "np_max [] = Inl ValueError"
| "np_max (x # xs) = Inr (foldl np_maximum x xs)"

text \<open>
  \<open>np.argmax\<close> of a 1-D array: the scan keeps the first element and replaces it by a later
  one only when \<open>not (later <= current)\<close>; it stops at a NaN.  So the result is the first
  index of the maximum, or of the first NaN.  An empty array raises ValueError.
\<close>

fun argmax_scan :: "nat \<Rightarrow> npfloat \<Rightarrow> nat \<Rightarrow> npfloat list \<Rightarrow> nat" where
  "argmax_scan bi bv i [] = bi"
| "argmax_scan bi bv i (x # xs) =
     (if bv = NaN then bi
      else if \<not> np_le x bv then argmax_scan i x (Suc i) xs
      else argmax_scan bi bv (Suc i) xs)"

fun np_argmax :: "npfloat list \<Rightarrow> error + nat" where
  "np_argmax [] = Inl ValueError"
| "np_argmax (x # xs) = Inr (argmax_scan 0 x 1 xs)"

definition exp_imp ::
  "real list \<Rightarrow> real list \<Rightarrow> real list \<Rightarrow> real \<Rightarrow> real \<Rightarrow> error + npfloat list" where
  "exp_imp X prev_x prev_y noise epcilon =
     (case fitted_gaus X prev_x prev_y noise of
        Inl e \<Rightarrow> Inl e
      | Inr (means, cov_mat) \<Rightarrow>
         (case fitted_gaus prev_x prev_x prev_y noise of
            Inl e \<Rightarrow> Inl e
          | Inr (prev_means, _) \<Rightarrow>
             (let sds = map np_sqrt (np_diag cov_mat)
              in case np_max prev_means of
                   Inl e \<Rightarrow> Inl e
                 | Inr best_mean \<Rightarrow>
                    (let imp = map (\<lambda>m. np_sub (np_sub m best_mean) (Fin epcilon)) means;
                         Z = map2 np_div imp sds
                     in Inr (map2 np_add (map2 np_mul imp (map norm_cdf Z))
                                         (map2 np_mul sds (map norm_pdf Z)))))))"

definition prob_imp ::
  "real list \<Rightarrow> real list \<Rightarrow> real list \<Rightarrow> real \<Rightarrow> real \<Rightarrow> error + npfloat list" where
  "prob_imp X prev_x prev_y noise epsilon =
     (case fitted_gaus X prev_x prev_y noise of
        Inl e \<Rightarrow> Inl e
      | Inr (means, cov_mat) \<Rightarrow>
         (case fitted_gaus prev_x prev_x prev_y noise of
            Inl e \<Rightarrow> Inl e
          | Inr (prev_means, _) \<Rightarrow>
             (let sds = map np_sqrt (np_diag cov_mat)
              in case np_max prev_means of
                   Inl e \<Rightarrow> Inl e
                 | Inr best_mean \<Rightarrow>
                    (let Z = map2 np_div
                               (map (\<lambda>m. np_sub (np_sub m best_mean) (Fin epsilon)) means)
                               (map (\<lambda>s. np_add s (Fin (1 / 10 ^ 9))) sds)
                     in Inr (map norm_cdf Z)))))"

definition upper_conf_bound ::
  "real list \<Rightarrow> real list \<Rightarrow> real list \<Rightarrow> real \<Rightarrow> real \<Rightarrow> error + npfloat list" where
  "upper_conf_bound X prev_x prev_y noise kappa =
     (case fitted_gaus X prev_x prev_y noise of
        Inl e \<Rightarrow> Inl e
      | Inr (means, cov_mat) \<Rightarrow>
         (let sds = map np_sqrt (np_diag cov_mat)
          in Inr (map2 np_add means (map (np_mul (Fin kappa)) sds))))"

section \<open>The optimization loop\<close>

text \<open>\<open>bounds = [0, 10]\<close> and \<open>np.linspace(start, stop, num)\<close>.\<close>

definition bounds :: "real \<times> real" where
  "bounds = (0, 10)"

definition linspace :: "real \<Rightarrow> real \<Rightarrow> nat \<Rightarrow> real list" where
  "linspace start stop num =
     map (\<lambda>i. start + real i * ((stop - start) / real (num - 1))) [0..<num]"

text \<open>
  The objective.  \<open>mix_function\<close> draws a noise sample and then does not use it, so the
  value depends on \<open>x\<close> only; it is evaluated at grid points, where \<open>0 \<le> x\<close>, and
  \<open>0 ** 0 = 1\<close>.
\<close>

definition mix_function :: "real \<Rightarrow> real" where
  "mix_function x = sin (x * x) - (if x = 0 then 1 else x powr (2 * sin x))"

definition objective_function :: "real \<Rightarrow> real" where
  "objective_function x = - mix_function x"

text \<open>
  One pass through the body of the sampling loop (the iterations \<open>i \<ge> 4\<close>), for an
  acquisition function \<open>acq\<close> already applied to its noise and trade-off parameter.  The
  state is the pair of arrays \<open>(X, Y)\<close>.  An exception ends the script, so a failed pass
  has no successor state.
\<close>

definition loop_body ::
  "(real list \<Rightarrow> real list \<Rightarrow> real list \<Rightarrow> error + npfloat list) \<Rightarrow> (real \<Rightarrow> real) \<Rightarrow>
   real list \<times> real list \<Rightarrow> error + (real list \<times> real list)" where
  "loop_body acq obj s =
     (case s of (X, Y) \<Rightarrow>
        (let xs = linspace (fst bounds) (snd bounds) 100
         in case acq xs X Y of
              Inl e \<Rightarrow> Inl e
            | Inr probas \<Rightarrow>
               (case np_argmax probas of
                  Inl e \<Rightarrow> Inl e
                | Inr k \<Rightarrow>
                   (let new_x = xs ! k;
                        X' = X @ [new_x];
                        new_y = obj new_x;
                        Y' = Y @ [new_y]
                    in Inr (X', Y')))))"

text \<open>The Expected Improvement loop: \<open>noise = .1\<close>, \<open>epcilon = .1\<close>.\<close>

definition ei_loop_body :: "real list \<times> real list \<Rightarrow> error + (real list \<times> real list)" where
  "ei_loop_body = loop_body (\<lambda>xs X Y. exp_imp xs X Y (1 / 10) (1 / 10)) objective_function"

fun run_loop ::
  "(real list \<times> real list \<Rightarrow> error + (real list \<times> real list)) \<Rightarrow> nat \<Rightarrow>
   real list \<times> real list \<Rightarrow> error + (real list \<times> real list)" where
  "run_loop body 0 s = Inr s"
| "run_loop body (Suc k) s =
     (case body s of Inl e \<Rightarrow> Inl e | Inr s' \<Rightarrow> run_loop body k s')"

section \<open>Notions used to specify the inversion\<close>

text \<open>
  A row of the augmented matrix is paired with a weight vector \<open>w\<close> by \<open>lin\<close>; \<open>ortho\<close>
  says that every row is orthogonal to \<open>w\<close>.  The elimination steps keep the set of such
  weight vectors unchanged, which is what ties the result to the input.  \<open>square n A\<close>
  says that \<open>A\<close> is an \<open>n\<close> by \<open>n\<close> list of rows and \<open>mult_id n A B\<close> that the product
  \<open>A B\<close> is the identity.
\<close>

definition lin :: "(nat \<Rightarrow> real) \<Rightarrow> nat \<Rightarrow> real list \<Rightarrow> real" where
  "lin w m r = (\<Sum>j<m. w j * r ! j)"

definition ortho :: "nat \<Rightarrow> (nat \<Rightarrow> real) \<Rightarrow> rmat \<Rightarrow> bool" where
  "ortho n w rs = (\<forall>i<n. lin w (2 * n) (rs ! i) = 0)"

definition aug_shape :: "nat \<Rightarrow> rmat \<Rightarrow> bool" where
  "aug_shape n rs = (length rs = n \<and> (\<forall>i<n. length (rs ! i) = 2 * n))"

definition unit_cols :: "nat \<Rightarrow> nat \<Rightarrow> rmat \<Rightarrow> bool" where
  "unit_cols n c rs = (\<forall>i<n. \<forall>j<c. rs ! i ! j = (if i = j then 1 else 0))"

definition square :: "nat \<Rightarrow> rmat \<Rightarrow> bool" where
  "square n A = (length A = n \<and> (\<forall>i<n. length (A ! i) = n))"

definition mult_id :: "nat \<Rightarrow> rmat \<Rightarrow> rmat \<Rightarrow> bool" where
  "mult_id n A B = (\<forall>i<n. \<forall>j<n. (\<Sum>k<n. A ! i ! k * B ! k ! j) = (if i = j then 1 else 0))"

section \<open>The posterior as the specification words it\<close>

text \<open>
  The squared-exponential kernel \<open>K(x, x') = exp(-(x - x')\<^sup>2 / (2 lengthscale\<^sup>2))\<close>, the
  regularised observation covariance \<open>K(observed_x, observed_x) + noise_std\<^sup>2 I\<close>, what it
  means for \<open>B\<close> to be the inverse of an \<open>n\<close> by \<open>n\<close> matrix \<open>A\<close>, and the two posterior
  formulas \<open>Sigma_qo Sigma_oo\<^sup>-\<^sup>1 observed_y\<close> and
  \<open>Sigma_qq - Sigma_qo Sigma_oo\<^sup>-\<^sup>1 Sigma_oq\<close>, written entry by entry.
\<close>

definition sq_exp :: "real \<Rightarrow> real \<Rightarrow> real \<Rightarrow> real" where
  "sq_exp l a b = exp (- ((a - b)\<^sup>2) / (2 * l\<^sup>2))"

definition sigma_oo :: "real list \<Rightarrow> real \<Rightarrow> nat \<Rightarrow> nat \<Rightarrow> real" where
  "sigma_oo xs noise i j = sq_exp 1 (xs ! i) (xs ! j) + noise\<^sup>2 * (if i = j then 1 else 0)"

definition is_inverse :: "nat \<Rightarrow> (nat \<Rightarrow> nat \<Rightarrow> real) \<Rightarrow> (nat \<Rightarrow> nat \<Rightarrow> real) \<Rightarrow> bool" where
  "is_inverse n A B =
     (\<forall>i<n. \<forall>j<n. (\<Sum>k<n. A i k * B k j) = (if i = j then 1 else 0) \<and>
                   (\<Sum>k<n. B i k * A k j) = (if i = j then 1 else 0))"

definition post_mean ::
  "real list \<Rightarrow> real list \<Rightarrow> real list \<Rightarrow> (nat \<Rightarrow> nat \<Rightarrow> real) \<Rightarrow> nat \<Rightarrow> real" where
  "post_mean X xs ys B i =
     (\<Sum>a<length xs. \<Sum>b<length xs. sq_exp 1 (X ! i) (xs ! a) * B a b * ys ! b)"

definition post_cov ::
  "real list \<Rightarrow> real list \<Rightarrow> (nat \<Rightarrow> nat \<Rightarrow> real) \<Rightarrow> nat \<Rightarrow> nat \<Rightarrow> real" where
  "post_cov X xs B i j =
     sq_exp 1 (X ! i) (X ! j) -
     (\<Sum>a<length xs. \<Sum>b<length xs. sq_exp 1 (X ! i) (xs ! a) * B a b * sq_exp 1 (xs ! b) (X ! j))"

definition rmat_of :: "nat \<Rightarrow> (nat \<Rightarrow> nat \<Rightarrow> real) \<Rightarrow> rmat" where
  "rmat_of n f = map (\<lambda>i. map (\<lambda>j. f i j) [0..<n]) [0..<n]"
definition singular :: "nat \<Rightarrow> (nat \<Rightarrow> nat \<Rightarrow> real) \<Rightarrow> bool" where
  "singular n A = (\<exists>v. (\<exists>j<n. v j \<noteq> 0) \<and> (\<forall>i<n. (\<Sum>j<n. A i j * v j) = 0))"

text \<open>
  The acquisition formulas of the specification, for an improvement term \<open>d\<close> and a
  standard deviation \<open>s\<close>, evaluated in float arithmetic: Expected Improvement is
  \<open>d Phi(Z) + s phi(Z)\<close> with \<open>Z = d / s\<close> and Probability of Improvement is \<open>Phi(Z)\<close> with
  \<open>Z = d / (s + delta)\<close>, \<open>delta = 10\<^sup>-\<^sup>9\<close>.  The incumbent is the largest posterior mean over
  the observed points, and \<open>post_sd\<close> the posterior standard deviation at a query point.
\<close>

definition ei_formula :: "real \<Rightarrow> real \<Rightarrow> npfloat" where
  "ei_formula d s =
     np_add (np_mul (Fin d) (norm_cdf (np_div (Fin d) (Fin s))))
            (np_mul (Fin s) (norm_pdf (np_div (Fin d) (Fin s))))"

definition pi_formula :: "real \<Rightarrow> real \<Rightarrow> npfloat" where
  "pi_formula d s = norm_cdf (np_div (Fin d) (Fin (s + 1 / 10 ^ 9)))"

definition incumbent :: "real list \<Rightarrow> real list \<Rightarrow> (nat \<Rightarrow> nat \<Rightarrow> real) \<Rightarrow> real" where
  "incumbent xs ys B = Max ((\<lambda>i. post_mean xs xs ys B i) ` {..<length xs})"

definition post_sd :: "real list \<Rightarrow> real list \<Rightarrow> (nat \<Rightarrow> nat \<Rightarrow> real) \<Rightarrow> nat \<Rightarrow> real" where
  "post_sd X xs B i = sqrt (post_cov X xs B i i)"

section \<open>Basic facts about arrays\<close>

lemma at2_mk2 [simp]: "i < n \<Longrightarrow> j < m \<Longrightarrow> at2 (mk2 n m f) i j = f i j"
  by (simp add: at2_def mk2_def)

lemma shape_mk2 [simp]: "shape0 (mk2 n m f) = n" "shape1 (mk2 n m f) = m"
  by (simp_all add: mk2_def)

lemma mk2_cong: "(\<And>i j. i < n \<Longrightarrow> j < m \<Longrightarrow> f i j = g i j) \<Longrightarrow> mk2 n m f = mk2 n m g"
  by (simp add: mk2_def)

lemma np_sub2_mk2: "np_sub2 (mk2 n m f) (mk2 n m g) = mk2 n m (\<lambda>i j. np_sub (f i j) (g i j))"
  unfolding np_sub2_def shape_mk2 by (rule mk2_cong) simp

lemma np_add2_mk2: "np_add2 (mk2 n m f) (mk2 n m g) = mk2 n m (\<lambda>i j. np_add (f i j) (g i j))"
  unfolding np_add2_def shape_mk2 by (rule mk2_cong) simp

lemma np_scale_mk2: "np_scale c (mk2 n m f) = mk2 n m (\<lambda>i j. np_mul c (f i j))"
  unfolding np_scale_def shape_mk2 by (rule mk2_cong) simp

lemma np_sub_zero [simp]: "np_sub x (Fin 0) = x"
  by (cases x) (simp_all add: np_sub_def)

section \<open>Python's float power\<close>

lemma py_float_sq_neg: "py_float_sq (- x) = py_float_sq x"
  by (simp add: py_float_sq_def)

lemma py_float_sq_overflow: "2 ^ 512 \<le> \<bar>x\<bar> \<Longrightarrow> py_float_sq x = Inl OverflowError"
  by (simp add: py_float_sq_def)

lemma py_float_sq_in_range: "\<bar>x\<bar> < 2 ^ 512 \<Longrightarrow> \<exists>s. py_float_sq x = Inr s \<and> 0 \<le> s"
  by (simp add: py_float_sq_def)

lemma py_float_sq_Inr: "py_float_sq x = Inr s \<Longrightarrow> 0 \<le> s \<and> \<bar>x\<bar> < 2 ^ 512"
  by (auto simp: py_float_sq_def split: if_splits)

lemma py_float_sq_zero [simp]: "py_float_sq 0 = Inr 0"
  by (simp add: py_float_sq_def)

lemma py_float_sq_normal:
  "\<bar>x\<bar> < 2 ^ 512 \<Longrightarrow> 1 / 2 ^ 1075 < x\<^sup>2 \<Longrightarrow> py_float_sq x = Inr (x\<^sup>2)"
  by (simp add: py_float_sq_def)

section \<open>The kernel validates nothing\<close>

text \<open>
  Claim C7 asks for an eager InvalidParameter failure on a non-positive lengthscale.  The
  kernel has no such check: with \<open>sigma = -1\<close> it returns the matrix it returns with
  \<open>sigma = 1\<close>.
\<close>

theorem rbf_kernel_negative_sigma_returns:
  "(- 1 :: real) \<le> 0 \<and>
   rbf_kernel_call [0] [0] (- 1) = Inr \<lparr>shape0 = 1, shape1 = 1, cells = [[Fin 1]]\<rparr>"
proof -
  have "py_float_sq (- 1) = Inr 1"
    using py_float_sq_normal[of "- 1"] by simp
  then show ?thesis
    by (simp add: rbf_kernel_call_def rbf_kernel_def mk2_def)
qed

text \<open>
  Claim C7 as amended: the kernel checks nothing.  A call with the lengthscale \<open>-sigma\<close> has
  the outcome of the call with \<open>sigma\<close>, since only \<open>sigma**2\<close> is used.  A call whose float
  lengthscale has \<open>|sigma| >= 2\<^sup>5\<^sup>1\<^sup>2\<close> raises Python's \<open>OverflowError\<close>, whatever the sign; every
  other call returns a matrix of shape \<open>(len x1, len x2)\<close>.  With the lengthscale zero the
  division by zero leaves a NaN where the two points coincide.
\<close>

theorem rbf_kernel_call_outcome:
  "rbf_kernel_call x1 x2 (- sigma) = rbf_kernel_call x1 x2 sigma \<and>
   (if 2 ^ 512 \<le> \<bar>sigma\<bar> then rbf_kernel_call x1 x2 sigma = Inl OverflowError
    else \<exists>K. rbf_kernel_call x1 x2 sigma = Inr K \<and>
             shape0 K = length x1 \<and> shape1 K = length x2) \<and>
   rbf_kernel_call [a] [a] 0 = Inr \<lparr>shape0 = 1, shape1 = 1, cells = [[NaN]]\<rparr>"
proof (intro conjI)
  show "rbf_kernel_call x1 x2 (- sigma) = rbf_kernel_call x1 x2 sigma"
    by (simp add: rbf_kernel_call_def py_float_sq_neg)
  show "if 2 ^ 512 \<le> \<bar>sigma\<bar> then rbf_kernel_call x1 x2 sigma = Inl OverflowError
    else \<exists>K. rbf_kernel_call x1 x2 sigma = Inr K \<and>
             shape0 K = length x1 \<and> shape1 K = length x2"
  proof (cases "2 ^ 512 \<le> \<bar>sigma\<bar>")
    case True
    then show ?thesis by (simp add: rbf_kernel_call_def py_float_sq_overflow)
  next
    case False
    then obtain s where "py_float_sq sigma = Inr s"
      using py_float_sq_in_range[of sigma] by auto
    then show ?thesis using False by (simp add: rbf_kernel_call_def rbf_kernel_def)
  qed
  show "rbf_kernel_call [a] [a] 0 = Inr \<lparr>shape0 = 1, shape1 = 1, cells = [[NaN]]\<rparr>"
    by (simp add: rbf_kernel_call_def rbf_kernel_def mk2_def)
qed

theorem rbf_kernel_call_outcome_witness:
  "rbf_kernel_call [0, 1] [0] (- 2) = rbf_kernel_call [0, 1] [0] 2 \<and>
   \<not> 2 ^ 512 \<le> \<bar>2 :: real\<bar> \<and>
   (\<exists>K. rbf_kernel_call [0, 1] [0] 2 = Inr K \<and>
        shape0 K = length [0, 1 :: real] \<and> shape1 K = length [0 :: real])"
  using rbf_kernel_call_outcome[of "[0, 1]" "[0]" 2] by simp

section \<open>The posterior without observations\<close>

lemma mat_inv_Nil [simp]: "mat_inv [] = Some []"
  by (simp add: mat_inv_def augment_def)

lemma np_linalg_inv_empty: "np_linalg_inv (mk2 0 0 f) = Inr (mk2 0 0 g)"
  by (simp add: np_linalg_inv_def mk2_def)

lemma fitted_gaus_empty:
  "fitted_gaus X [] [] noise = Inr (replicate (length X) (Fin 0), rbf_kernel X X 1)"
proof -
  have inv: "np_linalg_inv (np_add2 (rbf_kernel [] [] 1) (np_scale (Fin (noise\<^sup>2)) (np_eye 0)))
     = Inr (mk2 0 0 (\<lambda>i j. Fin 0))"
    by (simp add: np_add2_def rbf_kernel_def np_linalg_inv_empty)
  have t: "matmul (rbf_kernel X [] 1) (mk2 0 0 (\<lambda>i j. Fin 0)) =
             Inr (mk2 (length X) 0 (\<lambda>i j. Fin 0))"
    by (simp add: matmul_def rbf_kernel_def np_sum_def)
  have m: "matvec (mk2 (length X) 0 (\<lambda>i j. Fin 0)) [] = Inr (replicate (length X) (Fin 0))"
    by (simp add: matvec_def np_sum_def map_replicate_const)
  have u: "matmul (mk2 (length X) 0 (\<lambda>i j. Fin 0)) (rbf_kernel [] X 1) =
             Inr (mk2 (length X) (length X) (\<lambda>i j. Fin 0))"
    by (simp add: matmul_def rbf_kernel_def np_sum_def)
  have s: "np_sub2 (rbf_kernel X X 1) (mk2 (length X) (length X) (\<lambda>i j. Fin 0)) =
             rbf_kernel X X 1"
    unfolding rbf_kernel_def np_sub2_mk2 by simp
  show ?thesis
    unfolding fitted_gaus_def Let_def by (simp add: inv t m u s)
qed

text \<open>
  Claim C3 says that the call without observations succeeds for every noise level.  A float
  \<open>noise\<close> of \<open>2\<^sup>5\<^sup>1\<^sup>2\<close> makes \<open>noise**2\<close> raise \<open>OverflowError\<close>, although the matrix it would
  scale is empty.
\<close>

theorem fitted_gaus_huge_noise_raises:
  "fitted_gaus_call [0] [] [] (2 ^ 512) = Inl OverflowError"
  by (simp add: fitted_gaus_call_def py_float_sq_overflow)

text \<open>
  Claim C3 as amended: without observations, and with \<open>|noise| < 2\<^sup>5\<^sup>1\<^sup>2\<close>, the call succeeds,
  the mean is all zero and the covariance is the kernel matrix of the query points; with a
  larger float \<open>noise\<close> it raises \<open>OverflowError\<close>.
\<close>

theorem fitted_gaus_call_no_observations:
  "fitted_gaus_call X [] [] noise =
     (if 2 ^ 512 \<le> \<bar>noise\<bar> then Inl OverflowError
      else Inr (replicate (length X) (Fin 0), rbf_kernel X X 1))"
proof (cases "2 ^ 512 \<le> \<bar>noise\<bar>")
  case True
  then show ?thesis by (simp add: fitted_gaus_call_def py_float_sq_overflow)
next
  case False
  then obtain s where "py_float_sq noise = Inr s"
    using py_float_sq_in_range[of noise] by auto
  then show ?thesis using False by (simp add: fitted_gaus_call_def fitted_gaus_empty)
qed

theorem fitted_gaus_call_no_observations_witness:
  "\<not> 2 ^ 512 \<le> \<bar>1 / 10 :: real\<bar> \<and>
   fitted_gaus_call [0, 1] [] [] (1 / 10) =
     Inr (replicate (length [0, 1 :: real]) (Fin 0), rbf_kernel [0, 1] [0, 1] 1)"
  using fitted_gaus_call_no_observations[of "[0, 1]" "1 / 10"] by simp

section \<open>Correctness of the inversion\<close>

lemma swap_rows_nth:
  "c < length rs \<Longrightarrow> p < length rs \<Longrightarrow> i < length rs \<Longrightarrow>
   swap_rows c p rs ! i = (if i = p then rs ! c else if i = c then rs ! p else rs ! i)"
  by (simp add: swap_rows_def nth_list_update)

lemma swap_rows_length [simp]: "length (swap_rows c p rs) = length rs"
  by (simp add: swap_rows_def)

lemma swap_rows_shape:
  "aug_shape n rs \<Longrightarrow> c < n \<Longrightarrow> p < n \<Longrightarrow> aug_shape n (swap_rows c p rs)"
  by (simp add: aug_shape_def swap_rows_nth)

lemma eliminate_length [simp]: "length (eliminate c rs) = length rs"
  by (simp add: eliminate_def Let_def)

lemma eliminate_shape:
  "aug_shape n rs \<Longrightarrow> c < n \<Longrightarrow> aug_shape n (eliminate c rs)"
  by (simp add: aug_shape_def eliminate_def Let_def)

lemma eliminate_nth:
  assumes "aug_shape n rs" "c < n" "i < n" "j < 2 * n"
  shows "eliminate c rs ! i ! j =
           (if i = c then rs ! c ! j / rs ! c ! c
            else rs ! i ! j - rs ! i ! c * (rs ! c ! j / rs ! c ! c))"
  using assms by (simp add: aug_shape_def eliminate_def Let_def)

lemma lin_eliminate:
  assumes "aug_shape n rs" "c < n" "i < n"
  shows "lin w (2 * n) (eliminate c rs ! i) =
           (if i = c then lin w (2 * n) (rs ! c) / rs ! c ! c
            else lin w (2 * n) (rs ! i) - rs ! i ! c * (lin w (2 * n) (rs ! c) / rs ! c ! c))"
proof -
  have "lin w (2 * n) (eliminate c rs ! i) =
        (\<Sum>j<2 * n. w j * (if i = c then rs ! c ! j / rs ! c ! c
            else rs ! i ! j - rs ! i ! c * (rs ! c ! j / rs ! c ! c)))"
    unfolding lin_def by (rule sum.cong) (simp_all add: eliminate_nth[OF assms])
  also have "\<dots> = (if i = c then lin w (2 * n) (rs ! c) / rs ! c ! c
            else lin w (2 * n) (rs ! i) - rs ! i ! c * (lin w (2 * n) (rs ! c) / rs ! c ! c))"
    by (simp add: lin_def sum_divide_distrib sum_subtractf sum_distrib_left algebra_simps)
  finally show ?thesis .
qed

lemma ortho_eliminate:
  assumes sh: "aug_shape n rs" and c: "c < n" and pv: "rs ! c ! c \<noteq> 0"
  shows "ortho n w (eliminate c rs) \<longleftrightarrow> ortho n w rs"
proof
  assume o: "ortho n w rs"
  show "ortho n w (eliminate c rs)"
    unfolding ortho_def using o c by (simp add: lin_eliminate[OF sh c] ortho_def)
next
  assume o: "ortho n w (eliminate c rs)"
  have oc: "lin w (2 * n) (rs ! c) = 0"
    using o c pv by (auto simp: ortho_def lin_eliminate[OF sh c])
  show "ortho n w rs"
    unfolding ortho_def
  proof (intro allI impI)
    fix i assume i: "i < n"
    show "lin w (2 * n) (rs ! i) = 0"
    proof (cases "i = c")
      case True
      then show ?thesis using oc by simp
    next
      case False
      have "lin w (2 * n) (eliminate c rs ! i) = 0" using o i by (simp add: ortho_def)
      then show ?thesis using False oc by (simp add: lin_eliminate[OF sh c i])
    qed
  qed
qed

lemma ortho_swap:
  assumes "aug_shape n rs" "c < n" "p < n"
  shows "ortho n w (swap_rows c p rs) \<longleftrightarrow> ortho n w rs"
proof -
  have len: "length rs = n" using assms by (simp add: aug_shape_def)
  show ?thesis
    unfolding ortho_def
  proof
    assume h: "\<forall>i<n. lin w (2 * n) (swap_rows c p rs ! i) = 0"
    show "\<forall>i<n. lin w (2 * n) (rs ! i) = 0"
    proof (intro allI impI)
      fix i assume i: "i < n"
      have a: "lin w (2 * n) (swap_rows c p rs ! c) = 0" "lin w (2 * n) (swap_rows c p rs ! p) = 0"
        "lin w (2 * n) (swap_rows c p rs ! i) = 0"
        using h assms i by auto
      then show "lin w (2 * n) (rs ! i) = 0"
        using assms i len by (auto simp: swap_rows_nth split: if_splits)
    qed
  next
    assume h: "\<forall>i<n. lin w (2 * n) (rs ! i) = 0"
    show "\<forall>i<n. lin w (2 * n) (swap_rows c p rs ! i) = 0"
      using h assms len by (auto simp: swap_rows_nth)
  qed
qed

lemma find_pivot_Some:
  assumes "find_pivot c rs = Some p"
  shows "c \<le> p \<and> p < length rs \<and> rs ! p ! c \<noteq> 0"
  using assms unfolding find_pivot_def by (auto simp: find_Some_iff)

lemma find_pivot_None:
  assumes "find_pivot c rs = None" "c \<le> i" "i < length rs"
  shows "rs ! i ! c = 0"
  using assms unfolding find_pivot_def by (auto simp: find_None_iff)

lemma unit_cols_step:
  assumes sh: "aug_shape n rs" and c: "c < n" and p: "c \<le> p" "p < n"
    and pv: "rs ! p ! c \<noteq> 0" and u: "unit_cols n c rs"
  shows "unit_cols n (Suc c) (eliminate c (swap_rows c p rs))"
proof -
  let ?s = "swap_rows c p rs"
  have len: "length rs = n" using sh by (simp add: aug_shape_def)
  have shs: "aug_shape n ?s" using sh c p by (simp add: swap_rows_shape)
  have sc: "?s ! c = rs ! p" using c p len by (simp add: swap_rows_nth)
  have us: "unit_cols n c ?s"
    unfolding unit_cols_def
  proof (intro allI impI)
    fix i j assume ij: "i < n" "j < c"
    show "?s ! i ! j = (if i = j then 1 else 0)"
      using u ij c p len by (auto simp: unit_cols_def swap_rows_nth)
  qed
  show ?thesis
    unfolding unit_cols_def
  proof (intro allI impI)
    fix i j assume ij: "i < n" "j < Suc c"
    have j2: "j < 2 * n" using ij c by simp
    have cj: "j < c \<Longrightarrow> ?s ! c ! j = 0" using us c by (simp add: unit_cols_def)
    have e: "eliminate c ?s ! i ! j =
           (if i = c then ?s ! c ! j / ?s ! c ! c
            else ?s ! i ! j - ?s ! i ! c * (?s ! c ! j / ?s ! c ! c))"
      by (rule eliminate_nth[OF shs c ij(1) j2])
    show "eliminate c ?s ! i ! j = (if i = j then 1 else 0)"
    proof (cases "j = c")
      case True
      then show ?thesis using pv sc e by simp
    next
      case False
      then have jc: "j < c" using ij by simp
      have "?s ! i ! j = (if i = j then 1 else 0)" using us ij(1) jc by (simp add: unit_cols_def)
      then show ?thesis using cj[OF jc] jc e by auto
    qed
  qed
qed

lemma gj_Some:
  assumes "gj k c rs = Some rs'" "k + c = n" "aug_shape n rs" "unit_cols n c rs"
  shows "aug_shape n rs' \<and> unit_cols n n rs' \<and> (\<forall>w. ortho n w rs' \<longleftrightarrow> ortho n w rs)"
  using assms
proof (induction k arbitrary: c rs)
  case 0
  then show ?case by simp
next
  case (Suc k)
  from Suc.prems(1) obtain p where fp: "find_pivot c rs = Some p"
    and rec: "gj k (Suc c) (eliminate c (swap_rows c p rs)) = Some rs'"
    by (auto split: option.splits)
  have len: "length rs = n" using Suc.prems(3) by (simp add: aug_shape_def)
  have c: "c < n" using Suc.prems(2) by simp
  have p: "c \<le> p" "p < n" "rs ! p ! c \<noteq> 0" using find_pivot_Some[OF fp] len by auto
  let ?s = "swap_rows c p rs"
  have shs: "aug_shape n ?s" using Suc.prems(3) c p by (simp add: swap_rows_shape)
  have sc: "?s ! c = rs ! p" using c p len by (simp add: swap_rows_nth)
  have she: "aug_shape n (eliminate c ?s)" using shs c by (rule eliminate_shape)
  have ue: "unit_cols n (Suc c) (eliminate c ?s)"
    using unit_cols_step[OF Suc.prems(3) c p(1,2,3) Suc.prems(4)] .
  have kc: "k + Suc c = n" using Suc.prems(2) by simp
  from Suc.IH[OF rec kc she ue]
  have r: "aug_shape n rs'" "unit_cols n n rs'" "\<And>w. ortho n w rs' \<longleftrightarrow> ortho n w (eliminate c ?s)"
    by auto
  have "ortho n w (eliminate c ?s) \<longleftrightarrow> ortho n w rs" for w
    using ortho_eliminate[OF shs c, of w] sc p(3) ortho_swap[OF Suc.prems(3) c p(2), of w] by simp
  then show ?case using r by simp
qed

lemma gj_None:
  assumes "gj k c rs = None" "k + c = n" "aug_shape n rs" "unit_cols n c rs"
  shows "\<exists>c' rs'. c' < n \<and> aug_shape n rs' \<and> unit_cols n c' rs' \<and> (\<forall>i. c' \<le> i \<longrightarrow> i < n \<longrightarrow> rs' ! i ! c' = 0)
          \<and> (\<forall>w. ortho n w rs' \<longleftrightarrow> ortho n w rs)"
  using assms
proof (induction k arbitrary: c rs)
  case 0
  then show ?case by simp
next
  case (Suc k)
  have len: "length rs = n" using Suc.prems(3) by (simp add: aug_shape_def)
  have c: "c < n" using Suc.prems(2) by simp
  show ?case
  proof (cases "find_pivot c rs")
    case None
    have "\<forall>i. c \<le> i \<longrightarrow> i < n \<longrightarrow> rs ! i ! c = 0"
      using find_pivot_None[OF None] len by simp
    then show ?thesis using c Suc.prems(3,4) by blast
  next
    case (Some p)
    then have rec: "gj k (Suc c) (eliminate c (swap_rows c p rs)) = None"
      using Suc.prems(1) by simp
    have p: "c \<le> p" "p < n" "rs ! p ! c \<noteq> 0" using find_pivot_Some[OF Some] len by auto
    let ?s = "swap_rows c p rs"
    have shs: "aug_shape n ?s" using Suc.prems(3) c p by (simp add: swap_rows_shape)
    have sc: "?s ! c = rs ! p" using c p len by (simp add: swap_rows_nth)
    have she: "aug_shape n (eliminate c ?s)" using shs c by (rule eliminate_shape)
    have ue: "unit_cols n (Suc c) (eliminate c ?s)"
      using unit_cols_step[OF Suc.prems(3) c p(1,2,3) Suc.prems(4)] .
    have kc: "k + Suc c = n" using Suc.prems(2) by simp
    have eq: "ortho n w (eliminate c ?s) \<longleftrightarrow> ortho n w rs" for w
      using ortho_eliminate[OF shs c, of w] sc p(3) ortho_swap[OF Suc.prems(3) c p(2), of w] by simp
    from Suc.IH[OF rec kc she ue] obtain c' rs' where
      "c' < n" "aug_shape n rs'" "unit_cols n c' rs'" "\<forall>i. c' \<le> i \<longrightarrow> i < n \<longrightarrow> rs' ! i ! c' = 0"
      "\<forall>w. ortho n w rs' \<longleftrightarrow> ortho n w (eliminate c ?s)"
      by blast
    then show ?thesis using eq by blast
  qed
qed

lemma sum_split_double:
  fixes n :: nat and f :: "nat \<Rightarrow> real"
  shows "(\<Sum>j<2 * n. f j) = (\<Sum>j<n. f j) + (\<Sum>j<n. f (n + j))"
proof -
  have "{..<2 * n} = {..<n} \<union> {n..<2 * n}" by auto
  moreover have "sum f ({..<n} \<union> {n..<2 * n}) = sum f {..<n} + sum f {n..<2 * n}"
    by (rule sum.union_disjoint) auto
  ultimately have "(\<Sum>j<2 * n. f j) = (\<Sum>j<n. f j) + (\<Sum>j\<in>{n..<2 * n}. f j)"
    by simp
  also have "(\<Sum>j\<in>{n..<2 * n}. f j) = (\<Sum>j\<in>{0..<n}. f (j + n))"
    using sum.shift_bounds_nat_ivl[of f 0 n n] by (simp add: mult_2)
  also have "\<dots> = (\<Sum>j<n. f (n + j))"
    by (simp add: atLeast0LessThan add.commute)
  finally show ?thesis .
qed

lemma sum_delta_left:
  fixes f :: "nat \<Rightarrow> real"
  assumes "i < n"
  shows "(\<Sum>j<n. (if j = i then 1 else 0) * f j) = f i"
proof -
  have "(\<Sum>j<n. (if j = i then 1 else 0) * f j) = (\<Sum>j<n. if j = i then f j else 0)"
    by (rule sum.cong) auto
  also have "\<dots> = f i" using assms by simp
  finally show ?thesis .
qed

lemma sum_delta_left':
  fixes f :: "nat \<Rightarrow> real"
  shows "(\<Sum>j<n. (if j = i then 1 else 0) * f j) = (if i < n then f i else 0)"
proof -
  have "(\<Sum>j<n. (if j = i then 1 else 0) * f j) = (\<Sum>j<n. if j = i then f j else 0)"
    by (rule sum.cong) auto
  also have "\<dots> = (if i < n then f i else 0)" by simp
  finally show ?thesis .
qed

lemma augment_shape: "square n A \<Longrightarrow> aug_shape n (augment A)"
  by (simp add: square_def aug_shape_def augment_def unit_row_def)

lemma augment_nth:
  assumes "square n A" "i < n"
  shows "j < n \<Longrightarrow> augment A ! i ! j = A ! i ! j"
    and "k < n \<Longrightarrow> augment A ! i ! (n + k) = (if k = i then 1 else 0)"
  using assms by (simp_all add: square_def augment_def unit_row_def nth_append)

lemma lin_augment:
  assumes "square n A" "i < n"
  shows "lin w (2 * n) (augment A ! i) = (\<Sum>j<n. w j * A ! i ! j) + w (n + i)"
proof -
  have "lin w (2 * n) (augment A ! i) =
        (\<Sum>j<n. w j * augment A ! i ! j) + (\<Sum>k<n. w (n + k) * augment A ! i ! (n + k))"
    unfolding lin_def by (rule sum_split_double)
  also have "(\<Sum>j<n. w j * augment A ! i ! j) = (\<Sum>j<n. w j * A ! i ! j)"
    by (rule sum.cong) (simp_all add: augment_nth[OF assms])
  also have "(\<Sum>k<n. w (n + k) * augment A ! i ! (n + k)) = (\<Sum>k<n. (if k = i then 1 else 0) * w (n + k))"
    by (rule sum.cong) (simp_all add: augment_nth[OF assms])
  also have "\<dots> = w (n + i)" using assms(2) by (rule sum_delta_left)
  finally show ?thesis .
qed

lemma lin_reduced:
  assumes "aug_shape n rs" "unit_cols n n rs" "i < n"
  shows "lin w (2 * n) (rs ! i) = w i + (\<Sum>k<n. w (n + k) * rs ! i ! (n + k))"
proof -
  have "lin w (2 * n) (rs ! i) =
        (\<Sum>j<n. w j * rs ! i ! j) + (\<Sum>k<n. w (n + k) * rs ! i ! (n + k))"
    unfolding lin_def by (rule sum_split_double)
  also have "(\<Sum>j<n. w j * rs ! i ! j) = (\<Sum>j<n. (if j = i then 1 else 0) * w j)"
    by (rule sum.cong) (use assms in \<open>auto simp: unit_cols_def\<close>)
  also have "\<dots> = w i" using assms(3) by (rule sum_delta_left)
  finally show ?thesis .
qed

lemma mat_inv_Some:
  assumes sq: "square n A" and inv: "mat_inv A = Some B"
  shows "square n B \<and> mult_id n B A \<and> mult_id n A B"
proof -
  have len: "length A = n" using sq by (simp add: square_def)
  from inv obtain rs where g: "gj n 0 (augment A) = Some rs" and B: "B = map (drop n) rs"
    by (auto simp: mat_inv_def len)
  have r: "aug_shape n rs" "unit_cols n n rs" "\<And>w. ortho n w rs \<longleftrightarrow> ortho n w (augment A)"
    using gj_Some[OF g _ augment_shape[OF sq]] by (auto simp: unit_cols_def)
  have Bnth: "B ! i ! k = rs ! i ! (n + k)" if "i < n" "k < n" for i k
    using that r(1) by (simp add: B aug_shape_def)
  have sqB: "square n B" using r(1) by (simp add: B square_def aug_shape_def)
  have o1: "ortho n w rs \<longleftrightarrow> (\<forall>i<n. w i + (\<Sum>k<n. w (n + k) * B ! i ! k) = 0)" for w
    unfolding ortho_def
  proof (intro all_cong1 imp_cong refl)
    fix i assume i: "i < n"
    have "(\<Sum>k<n. w (n + k) * rs ! i ! (n + k)) = (\<Sum>k<n. w (n + k) * B ! i ! k)"
      by (rule sum.cong) (simp_all add: Bnth[OF i])
    then show "(lin w (2 * n) (rs ! i) = 0) = (w i + (\<Sum>k<n. w (n + k) * B ! i ! k) = 0)"
      by (simp add: lin_reduced[OF r(1,2) i])
  qed
  have o2: "ortho n w (augment A) \<longleftrightarrow> (\<forall>i<n. (\<Sum>j<n. w j * A ! i ! j) + w (n + i) = 0)" for w
    unfolding ortho_def by (simp add: lin_augment[OF sq] cong: all_cong1)
  have BA: "mult_id n B A"
    unfolding mult_id_def
  proof (intro allI impI)
    fix i j assume ij: "i < n" "j < n"
    define w where "w t = (if t < n then (if t = j then 1 else 0) else - A ! (t - n) ! j)" for t :: nat
    have "ortho n w (augment A)"
      unfolding o2
    proof (intro allI impI)
      fix i' assume i': "i' < n"
      have "(\<Sum>j'<n. w j' * A ! i' ! j') = (\<Sum>j'<n. (if j' = j then 1 else 0) * A ! i' ! j')"
        by (rule sum.cong) (simp_all add: w_def)
      also have "\<dots> = A ! i' ! j" using ij(2) by (rule sum_delta_left)
      finally show "(\<Sum>j'<n. w j' * A ! i' ! j') + w (n + i') = 0" by (simp add: w_def)
    qed
    then have "ortho n w rs" by (simp add: r(3))
    then have "w i + (\<Sum>k<n. w (n + k) * B ! i ! k) = 0" using ij(1) by (simp add: o1)
    moreover have "(\<Sum>k<n. w (n + k) * B ! i ! k) = - (\<Sum>k<n. B ! i ! k * A ! k ! j)"
      by (simp add: w_def sum_negf mult.commute)
    ultimately show "(\<Sum>k<n. B ! i ! k * A ! k ! j) = (if i = j then 1 else 0)"
      using ij by (simp add: w_def)
  qed
  have AB: "mult_id n A B"
    unfolding mult_id_def
  proof (intro allI impI)
    fix i j assume ij: "i < n" "j < n"
    define w where "w t = (if t < n then - B ! t ! j else (if t - n = j then 1 else 0))" for t :: nat
    have "ortho n w rs"
      unfolding o1
    proof (intro allI impI)
      fix i' assume i': "i' < n"
      have "(\<Sum>k<n. w (n + k) * B ! i' ! k) = (\<Sum>k<n. (if k = j then 1 else 0) * B ! i' ! k)"
        by (rule sum.cong) (simp_all add: w_def)
      also have "\<dots> = B ! i' ! j" using ij(2) by (rule sum_delta_left)
      finally show "w i' + (\<Sum>k<n. w (n + k) * B ! i' ! k) = 0" using i' by (simp add: w_def)
    qed
    then have "ortho n w (augment A)" by (simp add: r(3))
    then have "(\<Sum>k<n. w k * A ! i ! k) + w (n + i) = 0" using ij(1) by (simp add: o2)
    moreover have "(\<Sum>k<n. w k * A ! i ! k) = - (\<Sum>k<n. A ! i ! k * B ! k ! j)"
      by (simp add: w_def sum_negf mult.commute)
    ultimately show "(\<Sum>k<n. A ! i ! k * B ! k ! j) = (if i = j then 1 else 0)"
      by (simp add: w_def)
  qed
  show ?thesis using sqB BA AB by simp
qed

lemma mat_inv_None:
  assumes sq: "square n A" and inv: "mat_inv A = None"
  shows "\<exists>v. (\<exists>j<n. v j \<noteq> 0) \<and> (\<forall>i<n. (\<Sum>j<n. A ! i ! j * v j) = 0)"
proof -
  have len: "length A = n" using sq by (simp add: square_def)
  from inv have g: "gj n 0 (augment A) = None"
    by (auto simp: mat_inv_def len)
  from gj_None[OF g _ augment_shape[OF sq]] obtain c rs where
    c: "c < n" and sh: "aug_shape n rs" and u: "unit_cols n c rs"
    and z: "\<forall>i. c \<le> i \<longrightarrow> i < n \<longrightarrow> rs ! i ! c = 0"
    and o: "\<forall>w. ortho n w rs \<longleftrightarrow> ortho n w (augment A)"
    by (auto simp: unit_cols_def)
  define w where "w t = (if t < c then rs ! t ! c else if t = c then - 1 else 0)" for t :: nat
  have "ortho n w rs"
    unfolding ortho_def
  proof (intro allI impI)
    fix i assume i: "i < n"
    have "lin w (2 * n) (rs ! i) = (\<Sum>j<2 * n. w j * rs ! i ! j)" by (simp add: lin_def)
    also have "\<dots> = (\<Sum>j\<in>{..<c} \<union> {c}. w j * rs ! i ! j)"
      by (rule sum.mono_neutral_right) (use c in \<open>auto simp: w_def\<close>)
    also have "\<dots> = (\<Sum>j<c. w j * rs ! i ! j) + w c * rs ! i ! c"
      by (simp add: sum.union_disjoint)
    also have "(\<Sum>j<c. w j * rs ! i ! j) = (\<Sum>j<c. (if j = i then 1 else 0) * w j)"
      by (rule sum.cong) (use u i in \<open>auto simp: unit_cols_def\<close>)
    also have "\<dots> = (if i < c then w i else 0)"
      by (rule sum_delta_left')
    finally have e: "lin w (2 * n) (rs ! i) = (if i < c then w i else 0) + w c * rs ! i ! c" .
    have wc: "w c = - 1" by (simp add: w_def)
    have wi: "i < c \<Longrightarrow> w i = rs ! i ! c" by (simp add: w_def)
    show "lin w (2 * n) (rs ! i) = 0"
    proof (cases "i < c")
      case True
      then show ?thesis using e wc wi by simp
    next
      case False
      then have "rs ! i ! c = 0" using z i by simp
      then show ?thesis using e False by simp
    qed
  qed
  then have "ortho n w (augment A)" using o by simp
  then have "\<forall>i<n. (\<Sum>j<n. w j * A ! i ! j) + w (n + i) = 0"
    unfolding ortho_def by (simp add: lin_augment[OF sq])
  then have "\<forall>i<n. (\<Sum>j<n. A ! i ! j * w j) = 0"
    using c by (simp add: w_def mult.commute)
  moreover have "w c \<noteq> 0" by (simp add: w_def)
  ultimately show ?thesis using c by blast
qed

section \<open>From arrays of floats to sums of reals\<close>

lemma foldr_np_add_Fin:
  "foldr np_add (map (\<lambda>k. Fin (g k)) [0..<n]) (Fin z) = Fin ((\<Sum>k<n. g k) + z)"
  by (induction n arbitrary: z) (simp_all add: algebra_simps)

lemma np_sum_Fin: "np_sum (map (\<lambda>k. Fin (g k)) [0..<n]) = Fin (\<Sum>k<n. g k)"
  by (simp add: np_sum_def foldr_np_add_Fin)

lemma matmul_fin:
  "matmul (mk2 n m (\<lambda>i j. Fin (f i j))) (mk2 m p (\<lambda>i j. Fin (g i j))) =
     Inr (mk2 n p (\<lambda>i j. Fin (\<Sum>k<m. f i k * g k j)))"
proof -
  have "mk2 n p (\<lambda>i j. np_sum (map (\<lambda>k. np_mul (at2 (mk2 n m (\<lambda>i j. Fin (f i j))) i k)
                                              (at2 (mk2 m p (\<lambda>i j. Fin (g i j))) k j)) [0..<m]))
        = mk2 n p (\<lambda>i j. Fin (\<Sum>k<m. f i k * g k j))"
  proof (rule mk2_cong)
    fix i j assume ij: "i < n" "j < p"
    have eq: "map (\<lambda>k. np_mul (at2 (mk2 n m (\<lambda>i j. Fin (f i j))) i k)
                          (at2 (mk2 m p (\<lambda>i j. Fin (g i j))) k j)) [0..<m]
          = map (\<lambda>k. Fin (f i k * g k j)) [0..<m]"
      by (rule map_cong) (use ij in simp_all)
    show "np_sum (map (\<lambda>k. np_mul (at2 (mk2 n m (\<lambda>i j. Fin (f i j))) i k)
                          (at2 (mk2 m p (\<lambda>i j. Fin (g i j))) k j)) [0..<m])
               = Fin (\<Sum>k<m. f i k * g k j)"
      unfolding eq by (rule np_sum_Fin)
  qed
  then show ?thesis by (simp add: matmul_def)
qed

lemma matvec_fin:
  assumes "length v = m"
  shows "matvec (mk2 n m (\<lambda>i j. Fin (f i j))) (map Fin v) =
           Inr (map (\<lambda>i. Fin (\<Sum>k<m. f i k * v ! k)) [0..<n])"
proof -
  have "map (\<lambda>i. np_sum (map (\<lambda>k. np_mul (at2 (mk2 n m (\<lambda>i j. Fin (f i j))) i k) (map Fin v ! k)) [0..<m])) [0..<n]
        = map (\<lambda>i. Fin (\<Sum>k<m. f i k * v ! k)) [0..<n]"
  proof (rule map_cong[OF refl])
    fix i assume "i \<in> set [0..<n]"
    then have i: "i < n" by simp
    have eq: "map (\<lambda>k. np_mul (at2 (mk2 n m (\<lambda>i j. Fin (f i j))) i k) (map Fin v ! k)) [0..<m]
          = map (\<lambda>k. Fin (f i k * v ! k)) [0..<m]"
      by (rule map_cong) (use i assms in simp_all)
    show "np_sum (map (\<lambda>k. np_mul (at2 (mk2 n m (\<lambda>i j. Fin (f i j))) i k) (map Fin v ! k)) [0..<m])
               = Fin (\<Sum>k<m. f i k * v ! k)"
      unfolding eq by (rule np_sum_Fin)
  qed
  then show ?thesis using assms by (simp add: matvec_def)
qed

lemma matvec_mismatch:
  "length v \<noteq> m \<Longrightarrow> matvec (mk2 n m f) v = Inl ValueError"
  by (auto simp: matvec_def)

lemma rmat_of_square: "square n (rmat_of n f)"
  by (simp add: square_def rmat_of_def)

lemma rmat_of_nth: "i < n \<Longrightarrow> j < n \<Longrightarrow> rmat_of n f ! i ! j = f i j"
  by (simp add: rmat_of_def)

lemma cells_fin_square:
  assumes "square n B"
  shows "\<lparr>shape0 = n, shape1 = n, cells = map (map Fin) B\<rparr> = mk2 n n (\<lambda>i j. Fin (B ! i ! j))"
proof -
  have "map (map Fin) B = map (\<lambda>i. map (\<lambda>j. Fin (B ! i ! j)) [0..<n]) [0..<n]"
  proof (rule nth_equalityI)
    show "length (map (map Fin) B) = length (map (\<lambda>i. map (\<lambda>j. Fin (B ! i ! j)) [0..<n]) [0..<n])"
      using assms by (simp add: square_def)
  next
    fix i assume "i < length (map (map Fin) B)"
    then have i: "i < n" using assms by (simp add: square_def)
    have li: "length (B ! i) = n" using assms i by (simp add: square_def)
    have "map Fin (B ! i) = map (\<lambda>j. Fin (B ! i ! j)) [0..<n]"
      by (rule nth_equalityI) (simp_all add: li)
    then show "map (map Fin) B ! i = map (\<lambda>i. map (\<lambda>j. Fin (B ! i ! j)) [0..<n]) [0..<n] ! i"
      using i assms by (simp add: square_def)
  qed
  then show ?thesis by (simp add: mk2_def)
qed

lemma np_linalg_inv_fin:
  "np_linalg_inv (mk2 n n (\<lambda>i j. Fin (f i j))) =
     (case mat_inv (rmat_of n f) of
        None \<Rightarrow> Inl LinAlgError
      | Some B \<Rightarrow> Inr (mk2 n n (\<lambda>i j. Fin (B ! i ! j))))"
proof -
  have fin: "list_all (list_all is_fin) (cells (mk2 n n (\<lambda>i j. Fin (f i j))))"
    by (simp add: mk2_def list_all_iff)
  have val: "map (map fin_val) (cells (mk2 n n (\<lambda>i j. Fin (f i j)))) = rmat_of n f"
    by (simp add: mk2_def rmat_of_def comp_def)
  show ?thesis
  proof (cases "mat_inv (rmat_of n f)")
    case None
    then show ?thesis using fin val by (simp add: np_linalg_inv_def)
  next
    case (Some B)
    have "square n B" using mat_inv_Some[OF rmat_of_square Some] by simp
    then show ?thesis using fin val Some by (simp add: np_linalg_inv_def cells_fin_square)
  qed
qed

lemma rbf_kernel_default:
  "rbf_kernel x1 x2 1 = mk2 (length x1) (length x2) (\<lambda>i j. Fin (sq_exp 1 (x1 ! i) (x2 ! j)))"
  unfolding rbf_kernel_def by (rule mk2_cong) (simp add: sq_exp_def power2_commute)

lemma sigma_bb_fin:
  "np_add2 (rbf_kernel xs xs 1) (np_scale (Fin (noise\<^sup>2)) (np_eye (length xs))) =
     mk2 (length xs) (length xs) (\<lambda>i j. Fin (sigma_oo xs noise i j))"
  unfolding rbf_kernel_default np_eye_def np_scale_mk2 np_add2_mk2
  by (rule mk2_cong) (simp add: sigma_oo_def)

text \<open>The bridge: the posterior in terms of real sums.\<close>

lemma fitted_gaus_real:
  "fitted_gaus X xs ys noise =
     (case mat_inv (rmat_of (length xs) (sigma_oo xs noise)) of
        None \<Rightarrow> Inl LinAlgError
      | Some B \<Rightarrow>
          if length ys \<noteq> length xs then Inl ValueError
          else Inr (map (\<lambda>i. Fin (\<Sum>b<length xs. (\<Sum>a<length xs. sq_exp 1 (X ! i) (xs ! a) * B ! a ! b) * ys ! b))
                       [0..<length X],
                    mk2 (length X) (length X)
                      (\<lambda>i j. Fin (sq_exp 1 (X ! i) (X ! j) -
                         (\<Sum>b<length xs. (\<Sum>a<length xs. sq_exp 1 (X ! i) (xs ! a) * B ! a ! b) *
                              sq_exp 1 (xs ! b) (X ! j))))))"
proof (cases "mat_inv (rmat_of (length xs) (sigma_oo xs noise))")
  case None
  then show ?thesis
    unfolding fitted_gaus_def Let_def unfolding sigma_bb_fin unfolding np_linalg_inv_fin by simp
next
  case (Some B)
  show ?thesis
  proof (cases "length ys = length xs")
    case True
    show ?thesis
      unfolding fitted_gaus_def Let_def unfolding sigma_bb_fin unfolding np_linalg_inv_fin rbf_kernel_default
      using Some True
      by (simp add: matmul_fin matvec_fin np_sub2_mk2 np_sub_def)
  next
    case False
    then have "length (map Fin ys) \<noteq> length xs" by simp
    then show ?thesis
      unfolding fitted_gaus_def Let_def unfolding sigma_bb_fin unfolding np_linalg_inv_fin rbf_kernel_default
      using Some False
      by (simp add: matmul_fin matvec_mismatch)
  qed
qed

section \<open>Inverses, and the posterior in terms of one\<close>

lemma sum_delta_right:
  fixes f :: "nat \<Rightarrow> real"
  assumes "i < n"
  shows "(\<Sum>j<n. f j * (if j = i then 1 else 0)) = f i"
proof -
  have "(\<Sum>j<n. f j * (if j = i then 1 else 0)) = (\<Sum>j<n. if j = i then f j else 0)"
    by (rule sum.cong) auto
  also have "\<dots> = f i" using assms by simp
  finally show ?thesis .
qed

lemma sum_sum_assoc:
  fixes a b c :: "nat \<Rightarrow> nat \<Rightarrow> real"
  shows "(\<Sum>k<n. a i k * (\<Sum>l<m. b k l * c l j)) = (\<Sum>l<m. (\<Sum>k<n. a i k * b k l) * c l j)"
proof -
  have "(\<Sum>k<n. a i k * (\<Sum>l<m. b k l * c l j)) = (\<Sum>k<n. \<Sum>l<m. a i k * b k l * c l j)"
    by (simp add: sum_distrib_left mult.assoc)
  also have "\<dots> = (\<Sum>l<m. \<Sum>k<n. a i k * b k l * c l j)" by (rule sum.swap)
  also have "\<dots> = (\<Sum>l<m. (\<Sum>k<n. a i k * b k l) * c l j)"
    by (simp add: sum_distrib_right)
  finally show ?thesis .
qed

lemma is_inverse_unique:
  assumes B: "is_inverse n A B" and B': "is_inverse n A B'" and ij: "i < n" "j < n"
  shows "B i j = B' i j"
proof -
  have "B i j = (\<Sum>k<n. B i k * (if k = j then 1 else 0))"
    using ij by (simp add: sum_delta_right)
  also have "\<dots> = (\<Sum>k<n. B i k * (\<Sum>l<n. A k l * B' l j))"
    by (rule sum.cong) (use B' ij in \<open>auto simp: is_inverse_def\<close>)
  also have "\<dots> = (\<Sum>l<n. (\<Sum>k<n. B i k * A k l) * B' l j)"
    by (rule sum_sum_assoc)
  also have "\<dots> = (\<Sum>l<n. (if l = i then 1 else 0) * B' l j)"
    by (rule sum.cong) (use B ij in \<open>auto simp: is_inverse_def\<close>)
  also have "\<dots> = B' i j" using ij by (simp add: sum_delta_left)
  finally show ?thesis .
qed

lemma is_inverse_null:
  assumes B: "is_inverse n A B" and z: "\<forall>i<n. (\<Sum>j<n. A i j * v j) = 0" and i: "i < n"
  shows "v i = 0"
proof -
  have "v i = (\<Sum>l<n. (if l = i then 1 else 0) * v l)"
    using i by (simp add: sum_delta_left)
  also have "\<dots> = (\<Sum>l<n. (\<Sum>k<n. B i k * A k l) * v l)"
    by (rule sum.cong) (use B i in \<open>auto simp: is_inverse_def\<close>)
  also have "\<dots> = (\<Sum>k<n. B i k * (\<Sum>l<n. A k l * v l))"
    using sum_sum_assoc[where a = "\<lambda>_. B i" and b = A and c = "\<lambda>l _. v l" and n = n and m = n] by simp
  also have "\<dots> = 0"
    by (rule sum.neutral) (use z in simp)
  finally show ?thesis .
qed

lemma is_inverse_not_singular: "is_inverse n A B \<Longrightarrow> \<not> singular n A"
  unfolding singular_def using is_inverse_null by blast

lemma mat_inv_is_inverse:
  assumes "mat_inv (rmat_of n A) = Some B"
  shows "is_inverse n A (\<lambda>i j. B ! i ! j)"
proof -
  have m: "mult_id n B (rmat_of n A)" "mult_id n (rmat_of n A) B"
    using mat_inv_Some[OF rmat_of_square assms] by simp_all
  show ?thesis
    unfolding is_inverse_def
  proof (intro allI impI conjI)
    fix i j assume ij: "i < n" "j < n"
    have "(\<Sum>k<n. A i k * B ! k ! j) = (\<Sum>k<n. rmat_of n A ! i ! k * B ! k ! j)"
      by (rule sum.cong) (simp_all add: rmat_of_nth ij)
    then show "(\<Sum>k<n. A i k * B ! k ! j) = (if i = j then 1 else 0)"
      using m(2) ij by (simp add: mult_id_def)
    have "(\<Sum>k<n. B ! i ! k * A k j) = (\<Sum>k<n. B ! i ! k * rmat_of n A ! k ! j)"
      by (rule sum.cong) (simp_all add: rmat_of_nth ij)
    then show "(\<Sum>k<n. B ! i ! k * A k j) = (if i = j then 1 else 0)"
      using m(1) ij by (simp add: mult_id_def)
  qed
qed

lemma mat_inv_None_iff: "mat_inv (rmat_of n A) = None \<longleftrightarrow> singular n A"
proof
  assume n: "mat_inv (rmat_of n A) = None"
  from mat_inv_None[OF rmat_of_square n] obtain v where
    v: "\<exists>j<n. v j \<noteq> 0" "\<forall>i<n. (\<Sum>j<n. rmat_of n A ! i ! j * v j) = 0" by blast
  have "\<forall>i<n. (\<Sum>j<n. A i j * v j) = 0"
  proof (intro allI impI)
    fix i assume i: "i < n"
    have "(\<Sum>j<n. A i j * v j) = (\<Sum>j<n. rmat_of n A ! i ! j * v j)"
      by (rule sum.cong) (simp_all add: rmat_of_nth i)
    then show "(\<Sum>j<n. A i j * v j) = 0" using v(2) i by simp
  qed
  then show "singular n A" using v(1) unfolding singular_def by blast
next
  assume s: "singular n A"
  show "mat_inv (rmat_of n A) = None"
  proof (cases "mat_inv (rmat_of n A)")
    case (Some B)
    then show ?thesis using mat_inv_is_inverse[OF Some] is_inverse_not_singular s by blast
  qed simp
qed

lemma mat_inv_of_inverse:
  assumes "is_inverse n A B"
  obtains B' where "mat_inv (rmat_of n A) = Some B'" "\<And>i j. i < n \<Longrightarrow> j < n \<Longrightarrow> B' ! i ! j = B i j"
proof (cases "mat_inv (rmat_of n A)")
  case None
  then show ?thesis using assms is_inverse_not_singular mat_inv_None_iff by blast
next
  case (Some B')
  have "B' ! i ! j = B i j" if "i < n" "j < n" for i j
    using is_inverse_unique[OF mat_inv_is_inverse[OF Some] assms that] .
  then show ?thesis using Some that by blast
qed

lemma is_inverse_symmetric:
  assumes B: "is_inverse n A B" and sym: "\<And>i j. i < n \<Longrightarrow> j < n \<Longrightarrow> A i j = A j i"
    and ij: "i < n" "j < n"
  shows "B i j = B j i"
proof -
  have "is_inverse n A (\<lambda>i j. B j i)"
    unfolding is_inverse_def
  proof (intro allI impI conjI)
    fix i j assume ij: "i < n" "j < n"
    have "(\<Sum>k<n. A i k * B j k) = (\<Sum>k<n. B j k * A k i)"
      by (rule sum.cong) (simp_all add: sym ij mult.commute)
    then show "(\<Sum>k<n. A i k * B j k) = (if i = j then 1 else 0)"
      using B ij by (auto simp: is_inverse_def)
    have "(\<Sum>k<n. B k i * A k j) = (\<Sum>k<n. A j k * B k i)"
      by (rule sum.cong) (simp_all add: sym ij mult.commute)
    then show "(\<Sum>k<n. B k i * A k j) = (if i = j then 1 else 0)"
      using B ij by (auto simp: is_inverse_def)
  qed
  from is_inverse_unique[OF B this ij] show ?thesis .
qed

lemma sq_exp_sym: "sq_exp l a b = sq_exp l b a"
  by (simp add: sq_exp_def power2_commute)

lemma sigma_oo_sym: "sigma_oo xs noise i j = sigma_oo xs noise j i"
  by (auto simp: sigma_oo_def sq_exp_sym)

lemma sum_sum_entries:
  fixes f g :: "nat \<Rightarrow> real"
  assumes "\<And>a b. a < m \<Longrightarrow> b < m \<Longrightarrow> B' a b = B a b"
  shows "(\<Sum>b<m. (\<Sum>a<m. f a * B' a b) * g b) = (\<Sum>a<m. \<Sum>b<m. f a * B a b * g b)"
proof -
  have "(\<Sum>b<m. (\<Sum>a<m. f a * B' a b) * g b) = (\<Sum>b<m. \<Sum>a<m. f a * B a b * g b)"
  proof (rule sum.cong[OF refl])
    fix b assume "b \<in> {..<m}"
    then have b: "b < m" by simp
    have "(\<Sum>a<m. f a * B' a b) = (\<Sum>a<m. f a * B a b)"
      by (rule sum.cong) (simp_all add: assms b)
    then show "(\<Sum>a<m. f a * B' a b) * g b = (\<Sum>a<m. f a * B a b * g b)"
      by (simp add: sum_distrib_right)
  qed
  also have "\<dots> = (\<Sum>a<m. \<Sum>b<m. f a * B a b * g b)" by (rule sum.swap)
  finally show ?thesis .
qed

text \<open>The posterior in terms of an inverse of the observation covariance.\<close>

lemma fitted_gaus_of_inverse:
  assumes len: "length ys = length xs" and B: "is_inverse (length xs) (sigma_oo xs noise) B"
  shows "fitted_gaus X xs ys noise =
           Inr (map (\<lambda>i. Fin (post_mean X xs ys B i)) [0..<length X],
                mk2 (length X) (length X) (\<lambda>i j. Fin (post_cov X xs B i j)))"
proof -
  from mat_inv_of_inverse[OF B] obtain B' where
    B': "mat_inv (rmat_of (length xs) (sigma_oo xs noise)) = Some B'"
    and eq: "\<And>i j. i < length xs \<Longrightarrow> j < length xs \<Longrightarrow> B' ! i ! j = B i j" by blast
  have mean: "(\<Sum>b<length xs. (\<Sum>a<length xs. sq_exp 1 (X ! i) (xs ! a) * B' ! a ! b) * ys ! b)
              = post_mean X xs ys B i" for i
    unfolding post_mean_def
    by (rule sum_sum_entries[where B' = "\<lambda>a b. B' ! a ! b"]) (rule eq)
  have cov: "sq_exp 1 (X ! i) (X ! j) -
             (\<Sum>b<length xs. (\<Sum>a<length xs. sq_exp 1 (X ! i) (xs ! a) * B' ! a ! b) *
                              sq_exp 1 (xs ! b) (X ! j))
              = post_cov X xs B i j" for i j
    unfolding post_cov_def
    using sum_sum_entries[where B' = "\<lambda>a b. B' ! a ! b" and B = B and m = "length xs"
        and f = "\<lambda>a. sq_exp 1 (X ! i) (xs ! a)" and g = "\<lambda>b. sq_exp 1 (xs ! b) (X ! j)"] eq
    by simp
  show ?thesis
    unfolding fitted_gaus_real using B' len by (simp add: mean cov)
qed

lemma fitted_gaus_Inr_inverse:
  assumes "fitted_gaus X xs ys noise = Inr r"
  obtains B where "is_inverse (length xs) (sigma_oo xs noise) B" "length ys = length xs"
proof -
  from assms obtain B' where B': "mat_inv (rmat_of (length xs) (sigma_oo xs noise)) = Some B'"
    and len: "length ys = length xs"
    unfolding fitted_gaus_real by (auto split: option.splits if_splits)
  from mat_inv_is_inverse[OF B'] len that show ?thesis by blast
qed

lemma post_cov_sym:
  assumes B: "is_inverse (length xs) (sigma_oo xs noise) B"
  shows "post_cov X xs B i j = post_cov X xs B j i"
proof -
  have Bs: "B a b = B b a" if "a < length xs" "b < length xs" for a b
    using is_inverse_symmetric[OF B _ that] sigma_oo_sym by simp
  have "(\<Sum>a<length xs. \<Sum>b<length xs. sq_exp 1 (X ! i) (xs ! a) * B a b * sq_exp 1 (xs ! b) (X ! j))
      = (\<Sum>a<length xs. \<Sum>b<length xs. sq_exp 1 (X ! j) (xs ! b) * B b a * sq_exp 1 (xs ! a) (X ! i))"
    by (intro sum.cong refl) (simp add: Bs sq_exp_sym[of 1 "X ! i"] sq_exp_sym[of 1 _ "X ! j"])
  also have "\<dots> = (\<Sum>b<length xs. \<Sum>a<length xs. sq_exp 1 (X ! j) (xs ! b) * B b a * sq_exp 1 (xs ! a) (X ! i))"
    by (rule sum.swap)
  finally show ?thesis
    by (simp add: post_cov_def sq_exp_sym[of 1 "X ! i" "X ! j"])
qed

section \<open>The kernel is positive semidefinite\<close>

lemma sq_exp_factor:
  "sq_exp 1 a b = exp (- (a\<^sup>2) / 2) * exp (- (b\<^sup>2) / 2) * exp (a * b)"
proof -
  have "- ((a - b)\<^sup>2) / (2 * 1\<^sup>2) = - (a\<^sup>2) / 2 + - (b\<^sup>2) / 2 + a * b"
    by (simp add: power2_diff field_simps)
  then show ?thesis
    unfolding sq_exp_def by (simp only: exp_add)
qed

lemma exp_gram_nonneg:
  fixes d x :: "nat \<Rightarrow> real"
  shows "0 \<le> (\<Sum>i<n. \<Sum>j<n. d i * d j * exp (x i * x j))"
proof -
  let ?t = "\<lambda>k. (\<Sum>i<n. \<Sum>j<n. d i * d j * ((x i * x j) ^ k /\<^sub>R fact k))"
  have s: "?t sums (\<Sum>i<n. \<Sum>j<n. d i * d j * exp (x i * x j))"
    by (intro sums_sum sums_mult exp_converges)
  have t: "?t k = (\<Sum>i<n. d i * x i ^ k)\<^sup>2 / fact k" for k
  proof -
    have "(\<Sum>i<n. d i * x i ^ k)\<^sup>2 = (\<Sum>i<n. \<Sum>j<n. (d i * x i ^ k) * (d j * x j ^ k))"
      by (simp add: power2_eq_square sum_product)
    then have "(\<Sum>i<n. d i * x i ^ k)\<^sup>2 / fact k = (\<Sum>i<n. \<Sum>j<n. (d i * x i ^ k) * (d j * x j ^ k) / fact k)"
      by (simp add: sum_divide_distrib)
    also have "\<dots> = ?t k"
      by (intro sum.cong refl) (simp add: power_mult_distrib divide_inverse mult_ac)
    finally show ?thesis by simp
  qed
  have "0 \<le> ?t k" for k unfolding t by simp
  then show ?thesis using s sums_le[OF _ sums_zero s] by simp
qed

lemma sq_exp_gram_nonneg:
  fixes c x :: "nat \<Rightarrow> real"
  shows "0 \<le> (\<Sum>i<n. \<Sum>j<n. c i * c j * sq_exp 1 (x i) (x j))"
proof -
  have "(\<Sum>i<n. \<Sum>j<n. c i * c j * sq_exp 1 (x i) (x j)) =
        (\<Sum>i<n. \<Sum>j<n. (c i * exp (- ((x i)\<^sup>2) / 2)) * (c j * exp (- ((x j)\<^sup>2) / 2)) * exp (x i * x j))"
    by (intro sum.cong refl) (simp add: sq_exp_factor)
  also have "0 \<le> \<dots>" by (rule exp_gram_nonneg)
  finally show ?thesis .
qed

section \<open>Consequences for the observation covariance and the posterior variance\<close>

lemma sigma_oo_quadratic:
  "(\<Sum>i<n. v i * (\<Sum>j<n. sigma_oo xs noise i j * v j)) =
     (\<Sum>i<n. \<Sum>j<n. v i * v j * sq_exp 1 (xs ! i) (xs ! j)) + noise\<^sup>2 * (\<Sum>i<n. (v i)\<^sup>2)"
proof -
  have "(\<Sum>j<n. sigma_oo xs noise i j * v j) =
        (\<Sum>j<n. sq_exp 1 (xs ! i) (xs ! j) * v j) + noise\<^sup>2 * (if i < n then v i else 0)" for i
  proof -
    have "(\<Sum>j<n. sigma_oo xs noise i j * v j) =
          (\<Sum>j<n. sq_exp 1 (xs ! i) (xs ! j) * v j + noise\<^sup>2 * ((if j = i then 1 else 0) * v j))"
      by (intro sum.cong refl) (auto simp: sigma_oo_def algebra_simps)
    also have "\<dots> = (\<Sum>j<n. sq_exp 1 (xs ! i) (xs ! j) * v j) +
                      noise\<^sup>2 * (\<Sum>j<n. (if j = i then 1 else 0) * v j)"
      by (simp add: sum.distrib sum_distrib_left)
    finally show ?thesis by (simp only: sum_delta_left')
  qed
  then have "(\<Sum>i<n. v i * (\<Sum>j<n. sigma_oo xs noise i j * v j)) =
        (\<Sum>i<n. v i * (\<Sum>j<n. sq_exp 1 (xs ! i) (xs ! j) * v j) + noise\<^sup>2 * (v i)\<^sup>2)"
    by (intro sum.cong refl) (simp add: algebra_simps power2_eq_square)
  also have "\<dots> = (\<Sum>i<n. \<Sum>j<n. v i * v j * sq_exp 1 (xs ! i) (xs ! j)) + noise\<^sup>2 * (\<Sum>i<n. (v i)\<^sup>2)"
    by (simp add: sum.distrib sum_distrib_left mult_ac)
  finally show ?thesis .
qed

lemma sigma_oo_nonsingular:
  assumes "noise \<noteq> 0"
  shows "\<not> singular n (sigma_oo xs noise)"
proof
  assume "singular n (sigma_oo xs noise)"
  then obtain v j where j: "j < n" "v j \<noteq> 0"
    and z: "\<forall>i<n. (\<Sum>j<n. sigma_oo xs noise i j * v j) = 0"
    unfolding singular_def by blast
  have "(\<Sum>i<n. v i * (\<Sum>j<n. sigma_oo xs noise i j * v j)) = 0"
    by (rule sum.neutral) (use z in simp)
  then have e: "(\<Sum>i<n. \<Sum>j<n. v i * v j * sq_exp 1 (xs ! i) (xs ! j)) + noise\<^sup>2 * (\<Sum>i<n. (v i)\<^sup>2) = 0"
    by (simp only: sigma_oo_quadratic)
  have "0 < (v j)\<^sup>2" using j by simp
  also have "(v j)\<^sup>2 \<le> (\<Sum>i<n. (v i)\<^sup>2)"
    using member_le_sum[of j "{..<n}" "\<lambda>i. (v i)\<^sup>2"] j by simp
  finally have "0 < noise\<^sup>2 * (\<Sum>i<n. (v i)\<^sup>2)" using assms by simp
  moreover have "0 \<le> (\<Sum>i<n. \<Sum>j<n. v i * v j * sq_exp 1 (xs ! i) (xs ! j))"
    by (rule sq_exp_gram_nonneg)
  ultimately show False using e by linarith
qed

lemma sigma_oo_invertible:
  assumes "noise \<noteq> 0"
  obtains B where "is_inverse (length xs) (sigma_oo xs noise) B"
proof (cases "mat_inv (rmat_of (length xs) (sigma_oo xs noise))")
  case None
  then show ?thesis using sigma_oo_nonsingular[OF assms] mat_inv_None_iff by blast
next
  case (Some B)
  then show ?thesis using mat_inv_is_inverse that by blast
qed

text \<open>The posterior variance dominates \<open>noise\<^sup>2 |w|\<^sup>2\<close>, where \<open>w = B k\<close>.\<close>

lemma post_var_bound:
  fixes X xs :: "real list" and i :: nat and noise :: real and B :: "nat \<Rightarrow> nat \<Rightarrow> real"
  assumes B: "is_inverse (length xs) (sigma_oo xs noise) B"
  defines "w \<equiv> \<lambda>a. \<Sum>b<length xs. B a b * sq_exp 1 (xs ! b) (X ! i)"
  shows "post_cov X xs B i i = 1 - (\<Sum>a<length xs. sq_exp 1 (X ! i) (xs ! a) * w a)"
    and "noise\<^sup>2 * (\<Sum>a<length xs. (w a)\<^sup>2) \<le> post_cov X xs B i i"
proof -
  let ?m = "length xs"
  let ?k = "\<lambda>a. sq_exp 1 (X ! i) (xs ! a)"
  let ?K = "\<lambda>a b. sq_exp 1 (xs ! a) (xs ! b)"
  have k': "sq_exp 1 (xs ! b) (X ! i) = ?k b" for b by (rule sq_exp_sym)
  have w: "w a = (\<Sum>b<?m. B a b * ?k b)" for a by (simp add: w_def k')
  show var: "post_cov X xs B i i = 1 - (\<Sum>a<?m. ?k a * w a)"
    by (simp add: post_cov_def sq_exp_def w_def sum_distrib_left mult.assoc)
  have Sw: "(\<Sum>b<?m. sigma_oo xs noise a b * w b) = ?k a" if a: "a < ?m" for a
  proof -
    have "(\<Sum>b<?m. sigma_oo xs noise a b * w b) = (\<Sum>b<?m. sigma_oo xs noise a b * (\<Sum>c<?m. B b c * ?k c))"
      by (simp add: w)
    also have "\<dots> = (\<Sum>c<?m. (\<Sum>b<?m. sigma_oo xs noise a b * B b c) * ?k c)"
      using sum_sum_assoc[where a = "\<lambda>_. sigma_oo xs noise a" and b = B and c = "\<lambda>c _. ?k c"
          and n = ?m and m = ?m] by simp
    also have "\<dots> = (\<Sum>c<?m. (if c = a then 1 else 0) * ?k c)"
      by (rule sum.cong) (use B a in \<open>auto simp: is_inverse_def\<close>)
    also have "\<dots> = ?k a" using a by (rule sum_delta_left)
    finally show ?thesis .
  qed
  have Kw: "(\<Sum>b<?m. ?K a b * w b) = ?k a - noise\<^sup>2 * w a" if a: "a < ?m" for a
  proof -
    have "(\<Sum>b<?m. sigma_oo xs noise a b * w b) =
          (\<Sum>b<?m. ?K a b * w b + noise\<^sup>2 * ((if b = a then 1 else 0) * w b))"
      by (intro sum.cong refl) (auto simp: sigma_oo_def algebra_simps)
    also have "\<dots> = (\<Sum>b<?m. ?K a b * w b) + noise\<^sup>2 * (\<Sum>b<?m. (if b = a then 1 else 0) * w b)"
      by (simp add: sum.distrib sum_distrib_left)
    also have "(\<Sum>b<?m. (if b = a then 1 else 0) * w b) = w a" using a by (rule sum_delta_left)
    finally show ?thesis using Sw[OF a] by simp
  qed
  have wKw: "(\<Sum>a<?m. \<Sum>b<?m. w a * w b * ?K a b) =
             (\<Sum>a<?m. ?k a * w a) - noise\<^sup>2 * (\<Sum>a<?m. (w a)\<^sup>2)"
  proof -
    have "(\<Sum>a<?m. \<Sum>b<?m. w a * w b * ?K a b) = (\<Sum>a<?m. w a * (\<Sum>b<?m. ?K a b * w b))"
      by (simp add: sum_distrib_left mult_ac)
    also have "\<dots> = (\<Sum>a<?m. w a * (?k a - noise\<^sup>2 * w a))"
      by (rule sum.cong) (simp_all add: Kw)
    also have "\<dots> = (\<Sum>a<?m. ?k a * w a - noise\<^sup>2 * (w a)\<^sup>2)"
      by (intro sum.cong refl) (simp add: algebra_simps power2_eq_square)
    finally show ?thesis by (simp add: sum_subtractf sum_distrib_left)
  qed
  have one: "sq_exp 1 (X ! i) (X ! i) = 1" by (simp add: sq_exp_def)
  define c where "c j = (case j of 0 \<Rightarrow> 1 | Suc a \<Rightarrow> - w a)" for j :: nat
  define x where "x j = (case j of 0 \<Rightarrow> X ! i | Suc a \<Rightarrow> xs ! a)" for j :: nat
  have "0 \<le> (\<Sum>p<Suc ?m. \<Sum>q<Suc ?m. c p * c q * sq_exp 1 (x p) (x q))"
    by (rule sq_exp_gram_nonneg)
  also have "(\<Sum>p<Suc ?m. \<Sum>q<Suc ?m. c p * c q * sq_exp 1 (x p) (x q)) =
        sq_exp 1 (X ! i) (X ! i) - (\<Sum>b<?m. w b * ?k b)
        + (\<Sum>a<?m. - (w a * sq_exp 1 (xs ! a) (X ! i)) + (\<Sum>b<?m. w a * w b * ?K a b))"
    unfolding sum.lessThan_Suc_shift
    by (simp add: c_def x_def sum_negf sum.distrib)
  also have "\<dots> = 1 - (\<Sum>b<?m. w b * ?k b) - (\<Sum>a<?m. w a * ?k a) + (\<Sum>a<?m. \<Sum>b<?m. w a * w b * ?K a b)"
    by (simp add: sum.distrib sum_negf sum_subtractf k' one)
  also have "\<dots> = 1 - (\<Sum>a<?m. ?k a * w a) - noise\<^sup>2 * (\<Sum>a<?m. (w a)\<^sup>2)"
    unfolding wKw by (simp add: mult.commute)
  finally show "noise\<^sup>2 * (\<Sum>a<?m. (w a)\<^sup>2) \<le> post_cov X xs B i i"
    unfolding var by simp
qed

lemma post_var_nonneg:
  assumes "is_inverse (length xs) (sigma_oo xs noise) B"
  shows "0 \<le> post_cov X xs B i i"
proof -
  have "0 \<le> noise\<^sup>2 * (\<Sum>a<length xs. (\<Sum>b<length xs. B a b * sq_exp 1 (xs ! b) (X ! i))\<^sup>2)"
    by (intro mult_nonneg_nonneg sum_nonneg) simp_all
  then show ?thesis using post_var_bound(2)[OF assms, of X i] by linarith
qed

lemma post_var_pos:
  assumes B: "is_inverse (length xs) (sigma_oo xs noise) B" and n: "noise \<noteq> 0"
  shows "0 < post_cov X xs B i i"
proof -
  define w where "w = (\<lambda>a. \<Sum>b<length xs. B a b * sq_exp 1 (xs ! b) (X ! i))"
  have v: "post_cov X xs B i i = 1 - (\<Sum>a<length xs. sq_exp 1 (X ! i) (xs ! a) * w a)"
    and b: "noise\<^sup>2 * (\<Sum>a<length xs. (w a)\<^sup>2) \<le> post_cov X xs B i i"
    unfolding w_def using post_var_bound[OF B, of X i] by simp_all
  show ?thesis
  proof (cases "\<forall>a<length xs. w a = 0")
    case True
    then have "(\<Sum>a<length xs. sq_exp 1 (X ! i) (xs ! a) * w a) = 0"
      by (intro sum.neutral) simp
    then show ?thesis using v by simp
  next
    case False
    then obtain a where a: "a < length xs" "w a \<noteq> 0" by blast
    have "0 < (w a)\<^sup>2" using a by simp
    also have "(w a)\<^sup>2 \<le> (\<Sum>a<length xs. (w a)\<^sup>2)"
      using member_le_sum[of a "{..<length xs}" "\<lambda>a. (w a)\<^sup>2"] a by simp
    finally have "0 < noise\<^sup>2 * (\<Sum>a<length xs. (w a)\<^sup>2)" using n by simp
    then show ?thesis using b by linarith
  qed
qed

section \<open>Outcomes of the posterior\<close>

lemma fitted_gaus_never_nonfinite: "fitted_gaus X xs ys noise \<noteq> Inl NonFiniteInput"
  unfolding fitted_gaus_real by (simp split: option.splits)

lemma fitted_gaus_LinAlgError_iff:
  "fitted_gaus X xs ys noise = Inl LinAlgError \<longleftrightarrow> singular (length xs) (sigma_oo xs noise)"
  unfolding fitted_gaus_real mat_inv_None_iff[symmetric] by (simp split: option.splits)

lemma fitted_gaus_finite:
  assumes "fitted_gaus X xs ys noise = Inr (mean, cov)"
  shows "list_all is_fin mean \<and> list_all (list_all is_fin) (cells cov)"
  using assms unfolding fitted_gaus_real
  by (auto split: option.splits if_splits simp: list_all_iff mk2_def)

lemma is_inverse_one_obs: "is_inverse (length [0::real]) (sigma_oo [0] 1) (\<lambda>i j. 1 / 2)"
  by (simp add: is_inverse_def sigma_oo_def sq_exp_def)


lemma fitted_gaus_example:
  "fitted_gaus [0, 1] [0] [1] 1 =
     Inr (map (\<lambda>i. Fin (post_mean [0, 1] [0] [1] (\<lambda>i j. 1 / 2) i)) [0..<length [0, 1 :: real]],
          mk2 (length [0, 1 :: real]) (length [0, 1 :: real])
            (\<lambda>i j. Fin (post_cov [0, 1] [0] (\<lambda>i j. 1 / 2) i j)))"
  using fitted_gaus_of_inverse[OF _ is_inverse_one_obs, of "[1]" "[0, 1]"] by simp

lemma is_inverse_ill:
  "is_inverse (length [0, 0 :: real]) (sigma_oo [0, 0] (1 / 10 ^ 6))
     (\<lambda>i j. (if i = j then 1 + 1 / 10 ^ 12 else - 1) * (10 ^ 24 / (2 * 10 ^ 12 + 1)))"
  by (simp add: is_inverse_def sigma_oo_def sq_exp_def lessThan_Suc nth_Cons' less_Suc_eq field_simps)

section \<open>The call in terms of the inversion\<close>

lemma fitted_gaus_sq_cong: "a\<^sup>2 = b\<^sup>2 \<Longrightarrow> fitted_gaus X xs ys a = fitted_gaus X xs ys b"
  by (simp add: fitted_gaus_def)

lemma fitted_gaus_call_Inr:
  "py_float_sq noise = Inr n2 \<Longrightarrow> fitted_gaus_call X xs ys noise = fitted_gaus X xs ys (sqrt n2)"
  by (simp add: fitted_gaus_call_def)

lemma fitted_gaus_call_normal:
  assumes "\<bar>noise\<bar> < 2 ^ 512" and "1 / 2 ^ 1075 < noise\<^sup>2"
  shows "fitted_gaus_call X xs ys noise = fitted_gaus X xs ys noise"
  unfolding fitted_gaus_call_Inr[OF py_float_sq_normal[OF assms]]
  by (rule fitted_gaus_sq_cong) simp

lemma sigma_bb_sqrt:
  assumes "0 \<le> n2"
  shows "sigma_bb xs n2 = mk2 (length xs) (length xs) (\<lambda>i j. Fin (sigma_oo xs (sqrt n2) i j))"
  using sigma_bb_fin[of xs "sqrt n2"] assms by (simp add: sigma_bb_def)

lemma np_linalg_inv_sigma_bb:
  assumes "0 \<le> n2"
  shows "np_linalg_inv (sigma_bb xs n2) =
           (case mat_inv (rmat_of (length xs) (sigma_oo xs (sqrt n2))) of
              None \<Rightarrow> Inl LinAlgError
            | Some B \<Rightarrow> Inr (mk2 (length xs) (length xs) (\<lambda>i j. Fin (B ! i ! j))))"
  unfolding sigma_bb_sqrt[OF assms] by (rule np_linalg_inv_fin)



lemma fitted_gaus_call_LinAlgError_iff:
  assumes "py_float_sq noise = Inr n2"
  shows "fitted_gaus_call X xs ys noise = Inl LinAlgError \<longleftrightarrow>
         np_linalg_inv (sigma_bb xs n2) = Inl LinAlgError"
proof -
  have n2: "0 \<le> n2" using py_float_sq_Inr[OF assms] by simp
  show ?thesis
    unfolding fitted_gaus_call_Inr[OF assms] fitted_gaus_real np_linalg_inv_sigma_bb[OF n2]
    by (simp split: option.splits)
qed

lemma fitted_gaus_call_returns_iff:
  assumes "length ys = length xs" and "py_float_sq noise = Inr n2"
  shows "(\<exists>r. fitted_gaus_call X xs ys noise = Inr r) \<longleftrightarrow>
         (\<exists>B. np_linalg_inv (sigma_bb xs n2) = Inr B)"
proof -
  have n2: "0 \<le> n2" using py_float_sq_Inr[OF assms(2)] by simp
  show ?thesis
    unfolding fitted_gaus_call_Inr[OF assms(2)] fitted_gaus_real np_linalg_inv_sigma_bb[OF n2]
    using assms(1) by (simp split: option.splits)
qed

lemma singular_all_equal:
  assumes len: "2 \<le> length xs" and eq: "\<forall>x\<in>set xs. x = hd xs"
  shows "singular (length xs) (sigma_oo xs 0)"
proof -
  define v :: "nat \<Rightarrow> real"
    where "v = (\<lambda>j. (if j = 0 then 1 else 0) - (if j = 1 then 1 else 0))"
  have el: "xs ! i = hd xs" if "i < length xs" for i
    using eq that by simp
  have A: "sigma_oo xs 0 i j = 1" if "i < length xs" "j < length xs" for i j
    using el[OF that(1)] el[OF that(2)] by (simp add: sigma_oo_def sq_exp_def)
  have l: "0 < length xs" "1 < length xs" using len by linarith+
  have s: "(\<Sum>j<length xs. v j) = 0"
  proof -
    have "(\<Sum>j<length xs. v j) =
          (\<Sum>j<length xs. if j = 0 then 1 else 0) - (\<Sum>j<length xs. if j = 1 then 1 else 0)"
      unfolding v_def by (rule sum_subtractf)
    also have "\<dots> = 0" using l by simp
    finally show ?thesis .
  qed
  have z: "\<forall>i<length xs. (\<Sum>j<length xs. sigma_oo xs 0 i j * v j) = 0"
  proof (intro allI impI)
    fix i assume i: "i < length xs"
    have "(\<Sum>j<length xs. sigma_oo xs 0 i j * v j) = (\<Sum>j<length xs. v j)"
      by (rule sum.cong) (simp_all add: A i)
    then show "(\<Sum>j<length xs. sigma_oo xs 0 i j * v j) = 0" using s by simp
  qed
  have "v 0 \<noteq> 0" by (simp add: v_def)
  with l(1) have "\<exists>j<length xs. v j \<noteq> 0" by blast
  then show ?thesis unfolding singular_def using z by blast
qed


section \<open>The posterior formulas\<close>




section \<open>Failure of the inversion\<close>

text \<open>
  Claim C6 asks for a failure on every observation covariance that is singular or
  ill-conditioned beyond a configurable tolerance.  There is no tolerance: with the
  observed point 0 taken twice and \<open>noise = 10\<^sup>-\<^sup>6\<close> the covariance has the eigenvalues
  \<open>10\<^sup>-\<^sup>1\<^sup>2\<close> (eigenvector \<open>(1, -1)\<close>) and \<open>2 + 10\<^sup>-\<^sup>1\<^sup>2\<close> (eigenvector \<open>(1, 1)\<close>), a
  condition number above \<open>2 * 10\<^sup>1\<^sup>2\<close>, and the call returns a posterior.
\<close>

theorem fitted_gaus_ill_conditioned_returns:
  "sigma_oo [0, 0] (1 / 10 ^ 6) 0 0 * 1 + sigma_oo [0, 0] (1 / 10 ^ 6) 0 1 * (- 1) = 1 / 10 ^ 12 * 1 \<and>
   sigma_oo [0, 0] (1 / 10 ^ 6) 1 0 * 1 + sigma_oo [0, 0] (1 / 10 ^ 6) 1 1 * (- 1) = 1 / 10 ^ 12 * (- 1) \<and>
   sigma_oo [0, 0] (1 / 10 ^ 6) 0 0 * 1 + sigma_oo [0, 0] (1 / 10 ^ 6) 0 1 * 1 = (2 + 1 / 10 ^ 12) * 1 \<and>
   sigma_oo [0, 0] (1 / 10 ^ 6) 1 0 * 1 + sigma_oo [0, 0] (1 / 10 ^ 6) 1 1 * 1 = (2 + 1 / 10 ^ 12) * 1 \<and>
   (\<exists>mean cov. fitted_gaus_call [0] [0, 0] [0, 0] (1 / 10 ^ 6) = Inr (mean, cov))"
proof -
  have c: "fitted_gaus_call [0] [0, 0] [0, 0] (1 / 10 ^ 6) =
           fitted_gaus [0] [0, 0] [0, 0] (1 / 10 ^ 6)"
    by (rule fitted_gaus_call_normal) (simp_all add: power_divide)
  have "\<exists>mean cov. fitted_gaus_call [0] [0, 0] [0, 0] (1 / 10 ^ 6) = Inr (mean, cov)"
    unfolding c using fitted_gaus_of_inverse[OF _ is_inverse_ill, of "[0, 0]" "[0]"] by simp
  then show ?thesis by (simp add: sigma_oo_def sq_exp_def power_divide)
qed

text \<open>
  Claim C6 as amended: the posterior has no tolerance and no error of its own.  Once
  \<open>noise**2\<close> is evaluated, it fails with numpy's \<open>LinAlgError\<close> exactly when
  \<open>np.linalg.inv\<close> raises it for the observation covariance (the exception is not caught),
  and it returns a result exactly when \<open>np.linalg.inv\<close> returns.  The inversion does fail
  when \<open>noise = 0\<close> and the observed points, two or more, are all the same number.
\<close>

theorem fitted_gaus_call_fails_with_inv:
  assumes "length ys = length xs" and "py_float_sq noise = Inr n2"
  shows "(fitted_gaus_call X xs ys noise = Inl LinAlgError \<longleftrightarrow>
            np_linalg_inv (sigma_bb xs n2) = Inl LinAlgError) \<and>
         ((\<exists>r. fitted_gaus_call X xs ys noise = Inr r) \<longleftrightarrow>
            (\<exists>B. np_linalg_inv (sigma_bb xs n2) = Inr B)) \<and>
         (noise = 0 \<and> 2 \<le> length xs \<and> (\<forall>x\<in>set xs. x = hd xs) \<longrightarrow>
            fitted_gaus_call X xs ys noise = Inl LinAlgError)"
proof (intro conjI impI)
  show "fitted_gaus_call X xs ys noise = Inl LinAlgError \<longleftrightarrow>
          np_linalg_inv (sigma_bb xs n2) = Inl LinAlgError"
    by (rule fitted_gaus_call_LinAlgError_iff[OF assms(2)])
  show "(\<exists>r. fitted_gaus_call X xs ys noise = Inr r) \<longleftrightarrow>
          (\<exists>B. np_linalg_inv (sigma_bb xs n2) = Inr B)"
    by (rule fitted_gaus_call_returns_iff[OF assms])
next
  assume a: "noise = 0 \<and> 2 \<le> length xs \<and> (\<forall>x\<in>set xs. x = hd xs)"
  then have "singular (length xs) (sigma_oo xs 0)"
    using singular_all_equal by blast
  then have "fitted_gaus X xs ys 0 = Inl LinAlgError"
    by (simp add: fitted_gaus_LinAlgError_iff)
  then show "fitted_gaus_call X xs ys noise = Inl LinAlgError"
    using a by (simp add: fitted_gaus_call_def)
qed

theorem fitted_gaus_call_fails_with_inv_witness:
  "length [0, 0 :: real] = length [2, 2 :: real] \<and> py_float_sq 0 = Inr 0 \<and>
   (0 :: real) = 0 \<and> 2 \<le> length [2, 2 :: real] \<and> list_all (\<lambda>x. x = hd [2, 2 :: real]) [2, 2] \<and>
   fitted_gaus_call [0] [2, 2] [0, 0] 0 = Inl LinAlgError \<and>
   np_linalg_inv (sigma_bb [2, 2] 0) = Inl LinAlgError"
  using fitted_gaus_call_fails_with_inv[of "[0, 0]" "[2, 2]" 0 0 "[0]"] by auto

section \<open>The standard normal distribution function\<close>




lemma std_cdf_zero: "std_cdf 0 = 1 / 2"
  by (simp add: std_cdf_def cdf_term_def)


lemma std_pdf_pos: "0 < std_pdf z"
  by (simp add: std_pdf_def)

text \<open>The series is the distribution function: its derivative is the density, and its
  value at 0 is 1/2 (\<open>std_cdf_zero\<close>).\<close>

lemma cdf_term_coeff: "cdf_term z n = z * (cdf_coeff n * (z\<^sup>2) ^ n)"
  by (simp add: cdf_term_def cdf_coeff_def power_mult)

lemma cdf_coeff_summable: "summable (\<lambda>n. cdf_coeff n * u ^ n)"
proof (rule summable_comparison_test)
  show "\<exists>N. \<forall>n\<ge>N. norm (cdf_coeff n * u ^ n) \<le> \<bar>u\<bar> ^ n /\<^sub>R fact n"
  proof (intro exI allI impI)
    fix n :: nat
    have "(1::real) * 1 \<le> 2 ^ n * real (2 * n + 1)"
      by (intro mult_mono) simp_all
    then have "fact n * 1 \<le> fact n * (2 ^ n * real (2 * n + 1))"
      by (intro mult_left_mono) simp_all
    then have le: "fact n \<le> 2 ^ n * fact n * real (2 * n + 1)" by (simp add: mult_ac)
    have "norm (cdf_coeff n * u ^ n) = \<bar>u\<bar> ^ n / (2 ^ n * fact n * real (2 * n + 1))"
      by (simp add: cdf_coeff_def abs_mult power_abs)
    also have "\<dots> \<le> \<bar>u\<bar> ^ n / fact n"
      by (rule divide_left_mono[OF le]) simp_all
    finally show "norm (cdf_coeff n * u ^ n) \<le> \<bar>u\<bar> ^ n /\<^sub>R fact n"
      by (simp add: divide_inverse mult.commute)
  qed
  show "summable (\<lambda>n. \<bar>u\<bar> ^ n /\<^sub>R fact n)" by (rule summable_exp_generic)
qed

lemma cdf_series_identity:
  "(\<Sum>n. cdf_coeff n * u ^ n) + 2 * u * (\<Sum>n. diffs cdf_coeff n * u ^ n) = exp (- u / 2)"
proof -
  let ?E = "\<lambda>n. (- u / 2) ^ n /\<^sub>R fact n"
  have sE: "summable ?E" by (rule summable_exp_generic)
  have sa: "summable (\<lambda>n. cdf_coeff n * u ^ n)" by (rule cdf_coeff_summable)
  have sd: "summable (\<lambda>n. diffs cdf_coeff n * u ^ n)"
    by (rule termdiff_converges_all) (rule cdf_coeff_summable)
  have sa': "summable (\<lambda>n. cdf_coeff (Suc n) * u ^ Suc n)"
    using sa summable_Suc_iff[of "\<lambda>n. cdf_coeff n * u ^ n"] by (simp del: power_Suc)
  have tm: "?E (Suc n) = cdf_coeff (Suc n) * u ^ Suc n + 2 * u * (diffs cdf_coeff n * u ^ n)" for n
  proof -
    have "cdf_coeff (Suc n) * u ^ Suc n + 2 * u * (diffs cdf_coeff n * u ^ n)
          = (1 + 2 * real (Suc n)) * cdf_coeff (Suc n) * u ^ Suc n"
      by (simp add: diffs_def algebra_simps)
    also have "(1 + 2 * real (Suc n)) * cdf_coeff (Suc n) = (- 1) ^ Suc n / (2 ^ Suc n * fact (Suc n))"
    proof -
      have c: "k * (c / (D * k)) = c / D" if "k \<noteq> 0" for k c D :: real
        using that by simp
      have k: "1 + 2 * real (Suc n) = real (2 * Suc n + 1)" by simp
      show ?thesis
        unfolding cdf_coeff_def k by (rule c) simp
    qed
    also have "(- 1) ^ Suc n / (2 ^ Suc n * fact (Suc n)) * u ^ Suc n = ?E (Suc n)"
    proof -
      have "- u / 2 = (- 1) * u / 2" by simp
      then have "(- u / 2) ^ Suc n = ((- 1) * u / 2) ^ Suc n" by (rule arg_cong)
      also have "\<dots> = (- 1) ^ Suc n * u ^ Suc n / 2 ^ Suc n"
        by (simp only: power_divide power_mult_distrib)
      finally have p: "(- u / 2) ^ Suc n = (- 1) ^ Suc n * u ^ Suc n / 2 ^ Suc n" .
      have q: "a / (p * f) * b = inverse f * (a * b / p)" for a b p f :: real
        by (simp add: divide_inverse mult_ac)
      show ?thesis
        unfolding p real_scaleR_def by (rule q)
    qed
    finally show ?thesis by simp
  qed
  have "exp (- u / 2) - 1 = (\<Sum>n. ?E (Suc n))"
    using suminf_split_head[OF sE] by (simp add: exp_def)
  also have "\<dots> = (\<Sum>n. cdf_coeff (Suc n) * u ^ Suc n + 2 * u * (diffs cdf_coeff n * u ^ n))"
    by (simp only: tm)
  also have "\<dots> = (\<Sum>n. cdf_coeff (Suc n) * u ^ Suc n) + (\<Sum>n. 2 * u * (diffs cdf_coeff n * u ^ n))"
    by (rule suminf_add[symmetric, OF sa' summable_mult[OF sd]])
  also have "(\<Sum>n. cdf_coeff (Suc n) * u ^ Suc n) = (\<Sum>n. cdf_coeff n * u ^ n) - 1"
    using suminf_split_head[OF sa] by (simp add: cdf_coeff_def)
  also have "(\<Sum>n. 2 * u * (diffs cdf_coeff n * u ^ n)) = 2 * u * (\<Sum>n. diffs cdf_coeff n * u ^ n)"
    by (rule suminf_mult[OF sd])
  finally show ?thesis by simp
qed

lemma std_cdf_deriv: "(std_cdf has_field_derivative std_pdf z) (at z)"
proof -
  let ?h = "\<lambda>u. \<Sum>n. cdf_coeff n * u ^ n"
  let ?h' = "\<lambda>u. \<Sum>n. diffs cdf_coeff n * u ^ n"
  have g: "(\<Sum>n. cdf_term z n) = z * ?h (z\<^sup>2)" for z
    unfolding cdf_term_coeff by (rule suminf_mult[OF cdf_coeff_summable])
  have dh: "(?h has_field_derivative ?h' u) (at u)" for u
    by (rule termdiffs_strong_converges_everywhere) (rule cdf_coeff_summable)
  have d1: "((\<lambda>z. ?h (z\<^sup>2)) has_field_derivative ?h' (z\<^sup>2) * (2 * z)) (at z)"
    by (rule DERIV_chain2[OF dh]) (auto intro!: derivative_eq_intros)
  have d2: "((\<lambda>z. z * ?h (z\<^sup>2)) has_field_derivative
              1 * ?h (z\<^sup>2) + ?h' (z\<^sup>2) * (2 * z) * z) (at z)"
    by (rule DERIV_mult[OF DERIV_ident d1])
  have d3: "((\<lambda>z. 1 / 2 + (z * ?h (z\<^sup>2)) / sqrt (2 * pi)) has_field_derivative
              0 + (1 * ?h (z\<^sup>2) + ?h' (z\<^sup>2) * (2 * z) * z) / sqrt (2 * pi)) (at z)"
    by (rule DERIV_add[OF DERIV_const DERIV_cdivide[OF d2]])
  have v: "0 + (1 * ?h (z\<^sup>2) + ?h' (z\<^sup>2) * (2 * z) * z) / sqrt (2 * pi) = std_pdf z"
  proof -
    have "1 * ?h (z\<^sup>2) + ?h' (z\<^sup>2) * (2 * z) * z = ?h (z\<^sup>2) + 2 * z\<^sup>2 * ?h' (z\<^sup>2)"
      by (simp add: power2_eq_square)
    also have "\<dots> = exp (- (z\<^sup>2) / 2)" by (rule cdf_series_identity)
    finally show ?thesis by (simp add: std_pdf_def)
  qed
  show ?thesis
    using d3 unfolding v std_cdf_def[abs_def] g .
qed

section \<open>The acquisition functions in terms of the posterior\<close>

lemma np_maximum_Fin [simp]: "np_maximum (Fin a) (Fin b) = Fin (max a b)"
  by (simp add: max_def)

lemma foldl_np_maximum_Fin:
  "foldl np_maximum (Fin a) (map Fin rs) = Fin (foldl max a rs)"
  by (induction rs arbitrary: a) simp_all

lemma foldl_max_Max: "foldl max a rs = Max (set (a # rs))" for a :: real
proof -
  have "foldl max a rs = fold max rs a"
    by (induction rs arbitrary: a) (simp_all add: max.commute)
  then show ?thesis using Max.set_eq_fold[of a rs] by simp
qed

lemma np_max_Fin: "rs \<noteq> [] \<Longrightarrow> np_max (map Fin rs) = Inr (Fin (Max (set rs)))"
  by (cases rs) (simp_all add: foldl_np_maximum_Fin foldl_max_Max del: Max.set_eq_fold set_simps)

lemma np_diag_mk2: "np_diag (mk2 n n f) = map (\<lambda>i. f i i) [0..<n]"
  by (simp add: np_diag_def)

lemma zip_map_same: "zip (map g xs) (map h xs) = map (\<lambda>x. (g x, h x)) xs"
  by (induction xs) simp_all

lemma np_sub_Fin [simp]: "np_sub (Fin a) (Fin b) = Fin (a - b)"
  by (simp add: np_sub_def)

lemma incumbent_np_max:
  assumes "xs \<noteq> []"
  shows "np_max (map (\<lambda>i. Fin (post_mean xs xs ys B i)) [0..<length xs]) = Inr (Fin (incumbent xs ys B))"
proof -
  have "map (\<lambda>i. Fin (post_mean xs xs ys B i)) [0..<length xs] =
        map Fin (map (\<lambda>i. post_mean xs xs ys B i) [0..<length xs])" by simp
  moreover have "map (\<lambda>i. post_mean xs xs ys B i) [0..<length xs] \<noteq> []" using assms by simp
  moreover have "set (map (\<lambda>i. post_mean xs xs ys B i) [0..<length xs]) =
                 (\<lambda>i. post_mean xs xs ys B i) ` {..<length xs}"
    by (simp add: atLeast0LessThan)
  ultimately show ?thesis
    unfolding incumbent_def using np_max_Fin[of "map (\<lambda>i. post_mean xs xs ys B i) [0..<length xs]"]
    by (simp add: comp_def)
qed

lemma np_sqrt_post_cov:
  assumes "is_inverse (length xs) (sigma_oo xs noise) B"
  shows "np_sqrt (Fin (post_cov X xs B i i)) = Fin (post_sd X xs B i)"
  using post_var_nonneg[OF assms, of X i] by (simp add: post_sd_def)

text \<open>The three acquisition functions in terms of the posterior.\<close>

lemma sds_of_inverse:
  assumes B: "is_inverse (length xs) (sigma_oo xs noise) B"
  shows "map np_sqrt (np_diag (mk2 n n (\<lambda>i j. Fin (post_cov X xs B i j)))) =
           map (\<lambda>i. Fin (post_sd X xs B i)) [0..<n]"
  unfolding np_diag_mk2 by (simp only: map_map comp_def np_sqrt_post_cov[OF B])

lemma imp_of_means:
  "map (\<lambda>m. np_sub (np_sub m (Fin f)) (Fin eps)) (map (\<lambda>i. Fin (mu i)) is) =
     map (\<lambda>i. Fin (mu i - f - eps)) is"
  by simp

lemma exp_imp_of_inverse:
  assumes len: "length ys = length xs" and ne: "xs \<noteq> []"
    and B: "is_inverse (length xs) (sigma_oo xs noise) B"
  shows "exp_imp X xs ys noise eps =
           Inr (map (\<lambda>i. ei_formula (post_mean X xs ys B i - incumbent xs ys B - eps) (post_sd X xs B i))
                  [0..<length X])"
  unfolding exp_imp_def fitted_gaus_of_inverse[OF len B]
  by (simp only: sum.case prod.case Let_def incumbent_np_max[OF ne] np_diag_mk2
        np_sqrt_post_cov[OF B] imp_of_means zip_map_same map_map comp_def ei_formula_def)

lemma prob_imp_of_inverse:
  assumes len: "length ys = length xs" and ne: "xs \<noteq> []"
    and B: "is_inverse (length xs) (sigma_oo xs noise) B"
  shows "prob_imp X xs ys noise eps =
           Inr (map (\<lambda>i. pi_formula (post_mean X xs ys B i - incumbent xs ys B - eps) (post_sd X xs B i))
                  [0..<length X])"
  unfolding prob_imp_def fitted_gaus_of_inverse[OF len B]
  by (simp only: sum.case prod.case Let_def incumbent_np_max[OF ne] np_diag_mk2
        np_sqrt_post_cov[OF B] imp_of_means zip_map_same map_map comp_def pi_formula_def
        np_add.simps)

lemma upper_conf_bound_of_inverse:
  assumes len: "length ys = length xs"
    and B: "is_inverse (length xs) (sigma_oo xs noise) B"
  shows "upper_conf_bound X xs ys noise kappa =
           Inr (map (\<lambda>i. Fin (post_mean X xs ys B i + kappa * post_sd X xs B i)) [0..<length X])"
  unfolding upper_conf_bound_def fitted_gaus_of_inverse[OF len B]
  by (simp only: sum.case prod.case Let_def np_diag_mk2 np_sqrt_post_cov[OF B]
        zip_map_same map_map comp_def np_mul.simps np_add.simps)

lemma ei_formula_pos:
  "0 < s \<Longrightarrow> ei_formula d s = Fin (d * std_cdf (d / s) + s * std_pdf (d / s))"
  by (simp add: ei_formula_def)

lemma pi_formula_nonneg:
  "0 \<le> s \<Longrightarrow> pi_formula d s = Fin (std_cdf (d / (s + 1 / 10 ^ 9)))"
proof -
  assume "0 \<le> s"
  moreover have "(0::real) < 1 / 10 ^ 9" by simp
  ultimately have "s + 1 / 10 ^ 9 \<noteq> 0" by linarith
  then show ?thesis by (simp add: pi_formula_def)
qed

lemma is_inverse_noiseless_one: "is_inverse (length [5::real]) (sigma_oo [5] 0) (\<lambda>i j. 1)"
  by (simp add: is_inverse_def sigma_oo_def sq_exp_def)




section \<open>Expected Improvement\<close>




section \<open>A candidate with standard deviation zero\<close>

text \<open>
  Claim C5 asks for a score of exactly 0 from Expected Improvement and from Probability
  of Improvement where \<open>sigma = 0\<close>, without a division \<open>0/0\<close>.  With the single noiseless
  observation \<open>(5, 1/5)\<close>, the candidate 5 and \<open>eps = 0\<close> the posterior variance is 0;
  Expected Improvement divides 0 by 0 and returns NaN, Probability of Improvement
  returns \<open>Phi(0) = 1/2\<close>.
\<close>

theorem zero_sd_scores_not_zero:
  "fitted_gaus [5] [5] [1 / 5] 0 =
     Inr ([Fin (1 / 5)], \<lparr>shape0 = 1, shape1 = 1, cells = [[Fin 0]]\<rparr>) \<and>
   exp_imp [5] [5] [1 / 5] 0 0 = Inr [NaN] \<and>
   prob_imp [5] [5] [1 / 5] 0 0 = Inr [Fin (1 / 2)]"
proof -
  have p: "post_mean [5] [5] [1 / 5] (\<lambda>i j. 1) 0 = 1 / 5" "incumbent [5] [1 / 5] (\<lambda>i j. 1) = 1 / 5"
    "post_cov [5] [5] (\<lambda>i j. 1) 0 0 = 0"
    by (simp_all add: post_mean_def post_cov_def incumbent_def sq_exp_def lessThan_Suc)
  have f: "fitted_gaus [5] [5] [1 / 5] 0 =
     Inr ([Fin (1 / 5)], \<lparr>shape0 = 1, shape1 = 1, cells = [[Fin 0]]\<rparr>)"
    using fitted_gaus_of_inverse[OF _ is_inverse_noiseless_one, of "[1 / 5]" "[5]"]
    by (simp add: p mk2_def)
  have e: "exp_imp [5] [5] [1 / 5] 0 0 = Inr [NaN]"
    using exp_imp_of_inverse[OF _ _ is_inverse_noiseless_one, of "[1 / 5]" "[5]" 0]
    by (simp add: p post_sd_def ei_formula_def)
  have q: "prob_imp [5] [5] [1 / 5] 0 0 = Inr [Fin (1 / 2)]"
    using prob_imp_of_inverse[OF _ _ is_inverse_noiseless_one, of "[1 / 5]" "[5]" 0]
    by (simp add: p post_sd_def pi_formula_def std_cdf_zero)
  from f e q show ?thesis by blast
qed

text \<open>
  Claim C5 as amended: at a candidate whose posterior standard deviation is exactly 0,
  Probability of Improvement divides by \<open>sigma + 10\<^sup>-\<^sup>9\<close>, never by zero, and returns
  \<open>Phi((mu - f* - eps) / 10\<^sup>-\<^sup>9)\<close>, which need not be 0.
\<close>

theorem prob_imp_at_zero_sd:
  assumes "length ys = length xs" and "xs \<noteq> []"
    and "is_inverse (length xs) (sigma_oo xs noise) B"
    and "i < length X" and "post_sd X xs B i = 0"
  shows "\<exists>scores. prob_imp X xs ys noise eps = Inr scores \<and> length scores = length X \<and>
           scores ! i = Fin (std_cdf ((post_mean X xs ys B i - incumbent xs ys B - eps) / (0 + 1 / 10 ^ 9)))"
  using prob_imp_of_inverse[OF assms(1,2,3), of X eps] assms(4,5)
  by (simp add: pi_formula_def)

theorem prob_imp_at_zero_sd_witness:
  "length [1 / 5 :: real] = length [5 :: real] \<and> [5 :: real] \<noteq> [] \<and>
   is_inverse (length [5 :: real]) (sigma_oo [5] 0) (\<lambda>i j. 1) \<and>
   (0 :: nat) < length [5 :: real] \<and> post_sd [5] [5] (\<lambda>i j. 1) 0 = 0 \<and>
   (\<exists>scores. prob_imp [5] [5] [1 / 5] 0 0 = Inr scores \<and> length scores = length [5 :: real] \<and>
      scores ! 0 = Fin (std_cdf ((post_mean [5] [5] [1 / 5] (\<lambda>i j. 1) 0 - incumbent [5] [1 / 5] (\<lambda>i j. 1) - 0)
                                  / (0 + 1 / 10 ^ 9))))"
proof -
  have sd: "post_sd [5] [5] (\<lambda>i j. 1) 0 = 0"
    by (simp add: post_sd_def post_cov_def sq_exp_def)
  from prob_imp_at_zero_sd[OF _ _ is_inverse_noiseless_one _ sd, of "[1 / 5]" 0] is_inverse_noiseless_one sd
  show ?thesis by simp
qed

section \<open>The arg-max, the grid and one pass of the loop\<close>

lemma np_le_Fin [simp]: "np_le (Fin a) (Fin b) \<longleftrightarrow> a \<le> b"
  by simp

lemma argmax_scan_Fin:
  assumes "argmax_scan bi (Fin bv) i (map Fin rs) = k"
  shows "(k = bi \<and> (\<forall>r\<in>set rs. r \<le> bv)) \<or>
         (i \<le> k \<and> k < i + length rs \<and> bv < rs ! (k - i) \<and>
           (\<forall>j<length rs. rs ! j \<le> rs ! (k - i)) \<and> (\<forall>j<k - i. rs ! j < rs ! (k - i)))"
  using assms
proof (induction rs arbitrary: bi bv i)
  case Nil
  then show ?case by simp
next
  case (Cons r rs)
  show ?case
  proof (cases "r \<le> bv")
    case True
    then have "argmax_scan bi (Fin bv) (Suc i) (map Fin rs) = k" using Cons.prems by simp
    from Cons.IH[OF this] show ?thesis
    proof
      assume "k = bi \<and> (\<forall>r\<in>set rs. r \<le> bv)"
      then show ?thesis using True by simp
    next
      assume h: "Suc i \<le> k \<and> k < Suc i + length rs \<and> bv < rs ! (k - Suc i) \<and>
           (\<forall>j<length rs. rs ! j \<le> rs ! (k - Suc i)) \<and> (\<forall>j<k - Suc i. rs ! j < rs ! (k - Suc i))"
      then have ki: "k - i = Suc (k - Suc i)" by arith
      have "\<forall>j<length (r # rs). (r # rs) ! j \<le> (r # rs) ! (k - i)"
        using h True unfolding ki by (auto simp: nth_Cons split: nat.splits)
      moreover have "\<forall>j<k - i. (r # rs) ! j < (r # rs) ! (k - i)"
        using h True unfolding ki by (auto simp: nth_Cons less_Suc_eq_0_disj split: nat.splits)
      moreover have "bv < (r # rs) ! (k - i)" using h unfolding ki by simp
      ultimately show ?thesis using h by simp
    qed
  next
    case False
    then have "argmax_scan i (Fin r) (Suc i) (map Fin rs) = k" using Cons.prems by simp
    from Cons.IH[OF this] show ?thesis
    proof
      assume "k = i \<and> (\<forall>r'\<in>set rs. r' \<le> r)"
      then show ?thesis using False by (auto simp: nth_Cons split: nat.splits)
    next
      assume h: "Suc i \<le> k \<and> k < Suc i + length rs \<and> r < rs ! (k - Suc i) \<and>
           (\<forall>j<length rs. rs ! j \<le> rs ! (k - Suc i)) \<and> (\<forall>j<k - Suc i. rs ! j < rs ! (k - Suc i))"
      then have ki: "k - i = Suc (k - Suc i)" by arith
      have "\<forall>j<length (r # rs). (r # rs) ! j \<le> (r # rs) ! (k - i)"
        using h unfolding ki by (auto simp: nth_Cons split: nat.splits)
      moreover have "\<forall>j<k - i. (r # rs) ! j < (r # rs) ! (k - i)"
        using h unfolding ki by (auto simp: nth_Cons less_Suc_eq_0_disj split: nat.splits)
      moreover have "bv < (r # rs) ! (k - i)" using h False unfolding ki by simp
      ultimately show ?thesis using h by simp
    qed
  qed
qed

lemma np_argmax_Fin:
  assumes "rs \<noteq> []"
  obtains k where "np_argmax (map Fin rs) = Inr k" "k < length rs"
    "\<forall>j<length rs. rs ! j \<le> rs ! k" "\<forall>j<k. rs ! j < rs ! k"
proof -
  from assms obtain r rs' where rs: "rs = r # rs'" by (cases rs) auto
  define k where "k = argmax_scan 0 (Fin r) 1 (map Fin rs')"
  have a: "np_argmax (map Fin rs) = Inr k" by (simp add: rs k_def)
  from argmax_scan_Fin[OF k_def[symmetric]]
  have "(k = 0 \<and> (\<forall>r'\<in>set rs'. r' \<le> r)) \<or>
         (1 \<le> k \<and> k < 1 + length rs' \<and> r < rs' ! (k - 1) \<and>
           (\<forall>j<length rs'. rs' ! j \<le> rs' ! (k - 1)) \<and> (\<forall>j<k - 1. rs' ! j < rs' ! (k - 1)))" .
  then have "k < length rs \<and> (\<forall>j<length rs. rs ! j \<le> rs ! k) \<and> (\<forall>j<k. rs ! j < rs ! k)"
  proof
    assume "k = 0 \<and> (\<forall>r'\<in>set rs'. r' \<le> r)"
    then show ?thesis by (auto simp: rs nth_Cons split: nat.splits)
  next
    assume h: "1 \<le> k \<and> k < 1 + length rs' \<and> r < rs' ! (k - 1) \<and>
           (\<forall>j<length rs'. rs' ! j \<le> rs' ! (k - 1)) \<and> (\<forall>j<k - 1. rs' ! j < rs' ! (k - 1))"
    then obtain k' where k': "k = Suc k'" by (cases k) auto
    show ?thesis using h unfolding k' rs
      by (auto simp: nth_Cons less_Suc_eq_0_disj split: nat.splits)
  qed
  then show ?thesis using a that by blast
qed

lemma linspace_length [simp]: "length (linspace a b n) = n"
  by (simp add: linspace_def)

lemma linspace_nth: "k < n \<Longrightarrow> linspace a b n ! k = a + real k * ((b - a) / real (n - 1))"
  by (simp add: linspace_def)

lemma grid_bounds:
  assumes "k < 100"
  shows "0 \<le> linspace 0 10 100 ! k" "linspace 0 10 100 ! k \<le> 10"
proof -
  have "real k \<le> 99" using assms by simp
  then show "0 \<le> linspace 0 10 100 ! k" "linspace 0 10 100 ! k \<le> 10"
    using assms by (simp_all add: linspace_nth)
qed

text \<open>Expected Improvement with observation noise: every score is a finite number.\<close>

lemma exp_imp_noisy:
  assumes len: "length ys = length xs" and ne: "xs \<noteq> []" and noise: "noise \<noteq> 0"
  obtains scores where "exp_imp X xs ys noise eps = Inr (map Fin scores)" "length scores = length X"
proof -
  from sigma_oo_invertible[OF noise] obtain B where B: "is_inverse (length xs) (sigma_oo xs noise) B" .
  have sd: "0 < post_sd X xs B i" for i
    using post_var_pos[OF B noise, of X i] by (simp add: post_sd_def)
  define sc where "sc = map (\<lambda>i. (post_mean X xs ys B i - incumbent xs ys B - eps) *
                              std_cdf ((post_mean X xs ys B i - incumbent xs ys B - eps) / post_sd X xs B i) +
                              post_sd X xs B i *
                              std_pdf ((post_mean X xs ys B i - incumbent xs ys B - eps) / post_sd X xs B i))
                     [0..<length X]"
  have "exp_imp X xs ys noise eps = Inr (map Fin sc)"
    unfolding exp_imp_of_inverse[OF len ne B] sc_def
    by (simp add: ei_formula_pos[OF sd] comp_def)
  moreover have "length sc = length X" by (simp add: sc_def)
  ultimately show ?thesis using that by blast
qed

lemma exp_imp_Inr_pre:
  assumes "exp_imp X xs ys noise eps = Inr r"
  shows "length ys = length xs \<and> xs \<noteq> []"
proof -
  from assms obtain m where m: "fitted_gaus X xs ys noise = Inr m"
    unfolding exp_imp_def by (auto split: sum.splits)
  from fitted_gaus_Inr_inverse[OF m] obtain B where
    B: "is_inverse (length xs) (sigma_oo xs noise) B" and len: "length ys = length xs" by blast
  have "xs \<noteq> []"
  proof
    assume e: "xs = []"
    then have "ys = []" using len by simp
    then have "exp_imp X xs ys noise eps = Inl ValueError"
      unfolding exp_imp_def fitted_gaus_of_inverse[OF len B] using e by simp
    then show False using assms by simp
  qed
  then show ?thesis using len by simp
qed

lemma loop_body_exp_imp:
  assumes ne: "X \<noteq> []" and len: "length Y = length X" and noise: "noise \<noteq> 0"
  obtains scores k where
    "exp_imp (linspace 0 10 100) X Y noise eps = Inr (map Fin scores)" "length scores = 100"
    "k < 100" "\<forall>j<100. scores ! j \<le> scores ! k" "\<forall>j<k. scores ! j < scores ! k"
    "loop_body (\<lambda>xs X Y. exp_imp xs X Y noise eps) obj (X, Y) =
       Inr (X @ [linspace 0 10 100 ! k], Y @ [obj (linspace 0 10 100 ! k)])"
proof -
  from exp_imp_noisy[OF len ne noise, of "linspace 0 10 100" eps] obtain scores where
    s: "exp_imp (linspace 0 10 100) X Y noise eps = Inr (map Fin scores)" "length scores = 100"
    by auto
  then have "scores \<noteq> []" by auto
  from np_argmax_Fin[OF this] obtain k where
    k: "np_argmax (map Fin scores) = Inr k" "k < length scores"
    "\<forall>j<length scores. scores ! j \<le> scores ! k" "\<forall>j<k. scores ! j < scores ! k" by blast
  have "loop_body (\<lambda>xs X Y. exp_imp xs X Y noise eps) obj (X, Y) =
       Inr (X @ [linspace 0 10 100 ! k], Y @ [obj (linspace 0 10 100 ! k)])"
    unfolding loop_body_def by (simp add: bounds_def s k Let_def)
  then show ?thesis using that s k by simp
qed

lemma ei_loop_body_step:
  assumes "X \<noteq> []" and "length Y = length X"
  obtains scores k where
    "exp_imp (linspace 0 10 100) X Y (1 / 10) (1 / 10) = Inr (map Fin scores)" "length scores = 100"
    "k < 100" "\<forall>j<100. scores ! j \<le> scores ! k" "\<forall>j<k. scores ! j < scores ! k"
    "ei_loop_body (X, Y) =
       Inr (X @ [linspace 0 10 100 ! k], Y @ [objective_function (linspace 0 10 100 ! k)])"
proof -
  have n: "(1 / 10 :: real) \<noteq> 0" by simp
  show ?thesis
  proof (rule loop_body_exp_imp[OF assms n, of "1 / 10" objective_function])
    fix scores k
    assume "exp_imp (linspace 0 10 100) X Y (1 / 10) (1 / 10) = Inr (map Fin scores)"
      "length scores = 100" "k < 100" "\<forall>j<100. scores ! j \<le> scores ! k"
      "\<forall>j<k. scores ! j < scores ! k"
      "loop_body (\<lambda>xs X Y. exp_imp xs X Y (1 / 10) (1 / 10)) objective_function (X, Y) =
         Inr (X @ [linspace 0 10 100 ! k], Y @ [objective_function (linspace 0 10 100 ! k)])"
    then show thesis unfolding ei_loop_body_def[symmetric] by (rule that)
  qed
qed

lemma loop_body_Inl:
  "acq (linspace (fst bounds) (snd bounds) 100) X Y = Inl e \<Longrightarrow> loop_body acq obj (X, Y) = Inl e"
  unfolding loop_body_def Let_def by (simp only: prod.case sum.case)

lemma ei_loop_body_Inr_pre:
  assumes "ei_loop_body (X, Y) = Inr s"
  shows "X \<noteq> [] \<and> length Y = length X"
proof (cases "exp_imp (linspace (fst bounds) (snd bounds) 100) X Y (1 / 10) (1 / 10)")
  case (Inl e)
  then have "ei_loop_body (X, Y) = Inl e"
    unfolding ei_loop_body_def by (rule loop_body_Inl)
  then show ?thesis using assms by simp
next
  case (Inr r)
  from exp_imp_Inr_pre[OF this] show ?thesis by simp
qed

lemma run_loop_ei_total:
  assumes "X \<noteq> []" and "length Y = length X"
  shows "\<exists>X' Y'. run_loop ei_loop_body n (X, Y) = Inr (X', Y') \<and>
           length X' = length X + n \<and> length Y' = length X'"
  using assms
proof (induction n arbitrary: X Y)
  case 0
  then show ?case by simp
next
  case (Suc n)
  from ei_loop_body_step[OF Suc.prems] obtain k where
    st: "ei_loop_body (X, Y) =
       Inr (X @ [linspace 0 10 100 ! k], Y @ [objective_function (linspace 0 10 100 ! k)])"
    by blast
  have "X @ [linspace 0 10 100 ! k] \<noteq> []" by simp
  moreover have "length (Y @ [objective_function (linspace 0 10 100 ! k)]) =
                 length (X @ [linspace 0 10 100 ! k])" using Suc.prems by simp
  ultimately obtain X' Y' where
    "run_loop ei_loop_body n (X @ [linspace 0 10 100 ! k], Y @ [objective_function (linspace 0 10 100 ! k)])
       = Inr (X', Y')"
    "length X' = length (X @ [linspace 0 10 100 ! k]) + n" "length Y' = length X'"
    using Suc.IH by blast
  then show ?case using st by simp
qed

section \<open>The sampling loop\<close>

text \<open>
  Claim C9: from a state with at least one observation and as many \<open>y\<close> as \<open>x\<close> (the
  state after seeding, and every later one), a pass of the Expected Improvement loop
  returns; it appends exactly one pair, whose \<open>x\<close> is the grid point at the first index of
  the largest score.  So the two arrays keep equal lengths and grow by one per pass, for
  any number of passes.
\<close>

theorem ei_loop_iteration_appends_argmax:
  assumes "X \<noteq> []" and "length Y = length X"
  shows "(\<exists>scores k.
            exp_imp (linspace 0 10 100) X Y (1 / 10) (1 / 10) = Inr (map Fin scores) \<and>
            length scores = 100 \<and> k < 100 \<and>
            (\<forall>j<100. scores ! j \<le> scores ! k) \<and> (\<forall>j<k. scores ! j < scores ! k) \<and>
            ei_loop_body (X, Y) =
              Inr (X @ [linspace 0 10 100 ! k], Y @ [objective_function (linspace 0 10 100 ! k)])) \<and>
         (\<forall>n. \<exists>X' Y'. run_loop ei_loop_body n (X, Y) = Inr (X', Y') \<and>
            length X' = length X + n \<and> length Y' = length X')"
proof (rule conjI)
  show "\<exists>scores k.
            exp_imp (linspace 0 10 100) X Y (1 / 10) (1 / 10) = Inr (map Fin scores) \<and>
            length scores = 100 \<and> k < 100 \<and>
            (\<forall>j<100. scores ! j \<le> scores ! k) \<and> (\<forall>j<k. scores ! j < scores ! k) \<and>
            ei_loop_body (X, Y) =
              Inr (X @ [linspace 0 10 100 ! k], Y @ [objective_function (linspace 0 10 100 ! k)])"
  proof (rule ei_loop_body_step[OF assms])
    fix scores k
    assume a: "exp_imp (linspace 0 10 100) X Y (1 / 10) (1 / 10) = Inr (map Fin scores)"
      "length scores = 100" "k < 100" "\<forall>j<100. scores ! j \<le> scores ! k"
      "\<forall>j<k. scores ! j < scores ! k"
      "ei_loop_body (X, Y) =
         Inr (X @ [linspace 0 10 100 ! k], Y @ [objective_function (linspace 0 10 100 ! k)])"
    show ?thesis
      by (rule exI[of _ scores], rule exI[of _ k]) (intro conjI a)
  qed
  show "\<forall>n. \<exists>X' Y'. run_loop ei_loop_body n (X, Y) = Inr (X', Y') \<and>
            length X' = length X + n \<and> length Y' = length X'"
    by (rule allI) (rule run_loop_ei_total[OF assms])
qed

theorem ei_loop_iteration_appends_argmax_witness:
  "[5 :: real] \<noteq> [] \<and> length [0 :: real] = length [5 :: real] \<and>
   (\<exists>scores k.
            exp_imp (linspace 0 10 100) [5] [0] (1 / 10) (1 / 10) = Inr (map Fin scores) \<and>
            length scores = 100 \<and> k < 100 \<and>
            (\<forall>j<100. scores ! j \<le> scores ! k) \<and> (\<forall>j<k. scores ! j < scores ! k) \<and>
            ei_loop_body ([5], [0]) =
              Inr ([5] @ [linspace 0 10 100 ! k], [0] @ [objective_function (linspace 0 10 100 ! k)])) \<and>
   (\<forall>n. \<exists>X' Y'. run_loop ei_loop_body n ([5], [0]) = Inr (X', Y') \<and>
            length X' = length [5 :: real] + n \<and> length Y' = length X')"
  using ei_loop_iteration_appends_argmax[of "[5]" "[0]"] by (simp only: list.simps list.size not_False_eq_True simp_thms)

text \<open>
  Claim C10: whatever the loop has appended after any number of passes lies on the grid
  of 100 evenly spaced points over \<open>bounds\<close>, hence within the bounds 0 and 10.
\<close>

theorem ei_loop_samples_on_grid:
  assumes "run_loop ei_loop_body n (X, Y) = Inr (X', Y')"
  shows "\<exists>new. X' = X @ new \<and> length new = n \<and>
           (\<forall>x\<in>set new. x \<in> set (linspace (fst bounds) (snd bounds) 100) \<and>
                          fst bounds \<le> x \<and> x \<le> snd bounds)"
  using assms
proof (induction n arbitrary: X Y)
  case 0
  then show ?case by simp
next
  case (Suc n)
  from Suc.prems obtain s where s: "ei_loop_body (X, Y) = Inr s"
    and r: "run_loop ei_loop_body n s = Inr (X', Y')"
    by (auto split: sum.splits)
  from ei_loop_body_Inr_pre[OF s] have pre: "X \<noteq> []" "length Y = length X" by simp_all
  from ei_loop_body_step[OF pre] obtain k where k: "k < 100"
    and st: "ei_loop_body (X, Y) =
       Inr (X @ [linspace 0 10 100 ! k], Y @ [objective_function (linspace 0 10 100 ! k)])"
    by blast
  let ?x = "linspace 0 10 100 ! k"
  have s': "s = (X @ [?x], Y @ [objective_function ?x])" using s st by simp
  from Suc.IH[OF r[unfolded s']] obtain new where
    new: "X' = (X @ [?x]) @ new" "length new = n"
    "\<forall>x\<in>set new. x \<in> set (linspace (fst bounds) (snd bounds) 100) \<and> fst bounds \<le> x \<and> x \<le> snd bounds"
    by blast
  have "?x \<in> set (linspace (fst bounds) (snd bounds) 100)"
    using k by (simp add: bounds_def)
  moreover have "fst bounds \<le> ?x" "?x \<le> snd bounds"
    using grid_bounds[OF k] by (simp_all add: bounds_def)
  ultimately have "\<forall>x\<in>set (?x # new). x \<in> set (linspace (fst bounds) (snd bounds) 100) \<and>
                      fst bounds \<le> x \<and> x \<le> snd bounds"
    using new(3) by simp
  moreover have "X' = X @ (?x # new)" "length (?x # new) = Suc n" using new by simp_all
  ultimately show ?case by blast
qed

theorem ei_loop_samples_on_grid_witness:
  "\<exists>X' Y'. run_loop ei_loop_body 2 ([5], [0]) = Inr (X', Y') \<and>
     (\<exists>new. X' = [5] @ new \<and> length new = 2 \<and>
           (\<forall>x\<in>set new. x \<in> set (linspace (fst bounds) (snd bounds) 100) \<and>
                          fst bounds \<le> x \<and> x \<le> snd bounds))"
proof -
  have "\<exists>X' Y'. run_loop ei_loop_body 2 ([5], [0]) = Inr (X', Y') \<and>
           length X' = length [5 :: real] + 2 \<and> length Y' = length X'"
    by (rule run_loop_ei_total) simp_all
  then obtain X' Y' where r: "run_loop ei_loop_body 2 ([5], [0]) = Inr (X', Y')"
    by (elim exE conjE)
  have n: "\<exists>new. X' = [5] @ new \<and> length new = 2 \<and>
           (\<forall>x\<in>set new. x \<in> set (linspace (fst bounds) (snd bounds) 100) \<and>
                          fst bounds \<le> x \<and> x \<le> snd bounds)"
    by (rule ei_loop_samples_on_grid[OF r])
  show ?thesis
    by (rule exI[of _ X'], rule exI[of _ Y'], rule conjI[OF r n])
qed

end
